theory Spec2Isabelle
  imports Complex_Main "HOL-Library.Log_Nat"
begin

section \<open>The matrix container of matrix.h\<close>

text \<open>
  The class \<^verbatim>\<open>matrix<T>\<close> has one field, \<^verbatim>\<open>std::vector<std::vector<T>> data\<close>: a list of
  rows. The template parameter \<^verbatim>\<open>T\<close> is a type with \<^verbatim>\<open>+ - * /\<close>, \<^verbatim>\<open>T(0)\<close>, \<^verbatim>\<open>1\<close> and \<^verbatim>\<open>==\<close>;
  the definitions assume these operations and no law about them, so they apply to exact
  arithmetic (the rationals), to the integers with their quotient, and to a floating-point
  type with rounding, overflow and NaN (\<^verbatim>\<open>long double\<close>, defined below). The quotient \<^verbatim>\<open>a / b\<close>
  of the element type is written \<open>a div b\<close>; for a field it is the same as \<open>a / b\<close>. The test
  \<^verbatim>\<open>x == T1(0)\<close> is \<open>x = 0\<close>. Indices of type \<^verbatim>\<open>size_t\<close> are
  natural numbers; the one place where a \<^verbatim>\<open>size_t\<close> subtraction can wrap around
  (\<^verbatim>\<open>rows() - 1\<close> in \<^verbatim>\<open>determinant\<close>) has the wrap-around at \<open>2 ^ 64\<close> written out. The
  counters that the source declares as \<^verbatim>\<open>int\<close> are natural numbers as well: they hold
  sizes and indices of vectors in memory. A failed \<^verbatim>\<open>assert\<close> is the error
  \<open>AssertionFailure\<close>, the exception \<^verbatim>\<open>degenerate_matrix_error\<close> is \<open>DegenerateMatrix\<close>.
\<close>

type_synonym 'a matrix = "'a list list"

datatype error = DegenerateMatrix | AssertionFailure | OutOfRange

text \<open>\<^verbatim>\<open>matrix(Rows, Columns, t)\<close> and \<^verbatim>\<open>matrix(Rows, Columns)\<close> (every entry \<^verbatim>\<open>T()\<close>, which is 0).\<close>

definition matrix_fill :: "nat \<Rightarrow> nat \<Rightarrow> 'a \<Rightarrow> 'a matrix" where
  "matrix_fill Rows Columns t = replicate Rows (replicate Columns t)"

definition matrix_new :: "nat \<Rightarrow> nat \<Rightarrow> 'a::zero matrix" where
  "matrix_new Rows Columns = matrix_fill Rows Columns 0"

definition rows :: "'a matrix \<Rightarrow> nat" where
  "rows m = (if m = [] then 0 else length m)"

definition columns :: "'a matrix \<Rightarrow> nat" where
  "columns m = (if m = [] then 0 else length (m ! 0))"

text \<open>
  \<^verbatim>\<open>operator()(row, column)\<close> is \<^verbatim>\<open>data[row][column]\<close>, unchecked. \<open>elem\<close> reads an entry and
  \<open>put\<close> is the assignment through the returned reference. Both say nothing useful about
  an index outside the matrix; the loops of \<^verbatim>\<open>inverse\<close>, \<^verbatim>\<open>determinant\<close> and the product stay
  inside their matrices when the assertions hold, and the two operators that do leave
  their result matrix (the sum and the negation) are modelled with a checked assignment.
\<close>

definition elem :: "'a matrix \<Rightarrow> nat \<Rightarrow> nat \<Rightarrow> 'a" where
  "elem m r c = m ! r ! c"

definition put :: "'a matrix \<Rightarrow> nat \<Rightarrow> nat \<Rightarrow> 'a \<Rightarrow> 'a matrix" where
  "put m r c v = m[r := (m ! r)[c := v]]"

text \<open>\<^verbatim>\<open>std::swap(m(i,k), m(j,k))\<close>.\<close>

definition swap_entries :: "'a matrix \<Rightarrow> nat \<Rightarrow> nat \<Rightarrow> nat \<Rightarrow> 'a matrix" where
  "swap_entries m i j k = put (put m i k (elem m j k)) j k (elem m i k)"

text \<open>\<^verbatim>\<open>identity(N)\<close>: the loop \<^verbatim>\<open>for(i = 0; i < N; ++i) ret(i,i) = 1\<close> over \<^verbatim>\<open>matrix(N, N, T(0))\<close>.\<close>

function identity_loop :: "nat \<Rightarrow> nat \<Rightarrow> 'a::{zero,one,plus,minus,uminus,times,divide} matrix \<Rightarrow> 'a matrix" where
  "identity_loop N i ret = (if i < N then identity_loop N (Suc i) (put ret i i 1) else ret)"
  by pat_completeness auto
termination
  by (relation "measure (\<lambda>(N, i, ret). N - i)") auto

definition identity :: "nat \<Rightarrow> 'a::{zero,one,plus,minus,uminus,times,divide} matrix" where
  "identity N = identity_loop N 0 (matrix_fill N N 0)"

text \<open>
  The copy constructor: for every \<^verbatim>\<open>i < m.rows()\<close> a fresh row that receives \<^verbatim>\<open>m(i,j)\<close> for
  every \<^verbatim>\<open>j < m.columns()\<close>.
\<close>

definition matrix_copy :: "'a matrix \<Rightarrow> 'a matrix" where
  "matrix_copy m = map (\<lambda>i. map (\<lambda>j. elem m i j) [0..<columns m]) [0..<rows m]"

section \<open>Matrix product\<close>

text \<open>
  \<^verbatim>\<open>operator*(const matrix<T> &m)\<close>: the assertion \<^verbatim>\<open>columns() == m.rows()\<close>, the result
  \<^verbatim>\<open>matrix(rows(), m.columns(), T(0))\<close>, and the three loops in the order i, k, j with body
  \<^verbatim>\<open>ret(i,j) = ret(i,j) + data[i][k] * m(k,j)\<close>. A failed \<^verbatim>\<open>assert\<close> is the error
  \<open>AssertionFailure\<close>.
\<close>

function mult_j :: "'a::{zero,one,plus,minus,uminus,times,divide} matrix \<Rightarrow> 'a matrix \<Rightarrow> nat \<Rightarrow> nat \<Rightarrow> nat \<Rightarrow> 'a matrix \<Rightarrow> 'a matrix" where
  "mult_j a m i k j ret =
     (if j < columns m
      then mult_j a m i k (Suc j) (put ret i j (elem ret i j + elem a i k * elem m k j))
      else ret)"
  by pat_completeness auto
termination
  by (relation "measure (\<lambda>(a, m, i, k, j, ret). columns m - j)") auto

function mult_k :: "'a::{zero,one,plus,minus,uminus,times,divide} matrix \<Rightarrow> 'a matrix \<Rightarrow> nat \<Rightarrow> nat \<Rightarrow> 'a matrix \<Rightarrow> 'a matrix" where
  "mult_k a m i k ret =
     (if k < columns a then mult_k a m i (Suc k) (mult_j a m i k 0 ret) else ret)"
  by pat_completeness auto
termination
  by (relation "measure (\<lambda>(a, m, i, k, ret). columns a - k)") auto

function mult_i :: "'a::{zero,one,plus,minus,uminus,times,divide} matrix \<Rightarrow> 'a matrix \<Rightarrow> nat \<Rightarrow> 'a matrix \<Rightarrow> 'a matrix" where
  "mult_i a m i ret =
     (if i < rows a then mult_i a m (Suc i) (mult_k a m i 0 ret) else ret)"
  by pat_completeness auto
termination
  by (relation "measure (\<lambda>(a, m, i, ret). rows a - i)") auto

definition mult :: "'a::{zero,one,plus,minus,uminus,times,divide} matrix \<Rightarrow> 'a matrix \<Rightarrow> error + 'a matrix" where
  "mult a m =
     (if columns a = rows m
      then Inr (mult_i a m 0 (matrix_fill (rows a) (columns m) 0))
      else Inl AssertionFailure)"

section \<open>Sum, negation and difference\<close>

text \<open>
  \<^verbatim>\<open>operator+\<close> and the unary \<^verbatim>\<open>operator-\<close> both start from \<^verbatim>\<open>matrix<T> ret;\<close>, a matrix
  that is given no dimensions: its \<^verbatim>\<open>data\<close> is the empty vector. (The class declares no
  default constructor and no \<^verbatim>\<open>operator[]\<close>; \<^verbatim>\<open>ret[i][j]\<close> and \<^verbatim>\<open>m[i][j]\<close> are read as
  \<^verbatim>\<open>data[i][j]\<close>, which is what the same loops write for \<^verbatim>\<open>this\<close>.) The loops then
  assign to \<^verbatim>\<open>ret\<close> entry by entry. An assignment to an entry that \<^verbatim>\<open>ret\<close> does not
  have is outside the vector's storage, undefined behaviour in C++; the model makes it
  the error \<open>OutOfRange\<close>.
\<close>

definition put_checked :: "'a matrix \<Rightarrow> nat \<Rightarrow> nat \<Rightarrow> 'a \<Rightarrow> error + 'a matrix" where
  "put_checked m r c v =
     (if r < length m \<and> c < length (m ! r) then Inr (put m r c v) else Inl OutOfRange)"

function add_cols :: "'a::plus matrix \<Rightarrow> 'a matrix \<Rightarrow> nat \<Rightarrow> nat \<Rightarrow> 'a matrix \<Rightarrow> error + 'a matrix" where
  "add_cols a m i j ret =
     (if j < columns a
      then (case put_checked ret i j (elem a i j + elem m i j) of
              Inl e \<Rightarrow> Inl e
            | Inr ret1 \<Rightarrow> add_cols a m i (Suc j) ret1)
      else Inr ret)"
  by pat_completeness auto
termination
  by (relation "measure (\<lambda>(a, m, i, j, ret). columns a - j)") auto

function add_rows :: "'a::plus matrix \<Rightarrow> 'a matrix \<Rightarrow> nat \<Rightarrow> 'a matrix \<Rightarrow> error + 'a matrix" where
  "add_rows a m i ret =
     (if i < rows a
      then (case add_cols a m i 0 ret of
              Inl e \<Rightarrow> Inl e
            | Inr ret1 \<Rightarrow> add_rows a m (Suc i) ret1)
      else Inr ret)"
  by pat_completeness auto
termination
  by (relation "measure (\<lambda>(a, m, i, ret). rows a - i)") auto

definition add :: "'a::plus matrix \<Rightarrow> 'a matrix \<Rightarrow> error + 'a matrix" where
  "add a m =
     (if rows a = rows m \<and> columns a = columns m
      then add_rows a m 0 []
      else Inl AssertionFailure)"

function negate_cols :: "'a::uminus matrix \<Rightarrow> nat \<Rightarrow> nat \<Rightarrow> 'a matrix \<Rightarrow> error + 'a matrix" where
  "negate_cols a i j ret =
     (if j < columns a
      then (case put_checked ret i j (- elem a i j) of
              Inl e \<Rightarrow> Inl e
            | Inr ret1 \<Rightarrow> negate_cols a i (Suc j) ret1)
      else Inr ret)"
  by pat_completeness auto
termination
  by (relation "measure (\<lambda>(a, i, j, ret). columns a - j)") auto

function negate_rows :: "'a::uminus matrix \<Rightarrow> nat \<Rightarrow> 'a matrix \<Rightarrow> error + 'a matrix" where
  "negate_rows a i ret =
     (if i < rows a
      then (case negate_cols a i 0 ret of
              Inl e \<Rightarrow> Inl e
            | Inr ret1 \<Rightarrow> negate_rows a (Suc i) ret1)
      else Inr ret)"
  by pat_completeness auto
termination
  by (relation "measure (\<lambda>(a, i, ret). rows a - i)") auto

definition negate :: "'a::uminus matrix \<Rightarrow> error + 'a matrix" where
  "negate a = negate_rows a 0 []"

text \<open>The binary \<^verbatim>\<open>operator-\<close> is \<^verbatim>\<open>(*this) + -m\<close>: the negation is evaluated first.\<close>

definition subtract :: "'a::{plus,uminus} matrix \<Rightarrow> 'a matrix \<Rightarrow> error + 'a matrix" where
  "subtract a m = (case negate m of Inl e \<Rightarrow> Inl e | Inr m1 \<Rightarrow> add a m1)"

section \<open>The pivot search shared by inverse and determinant\<close>

text \<open>
  \<^verbatim>\<open>for(j = i; j < rows() && tmp(j,i) == T1(0); ++j);\<close> The function returns the value of
  \<^verbatim>\<open>j\<close> after the loop; \<open>n\<close> is \<^verbatim>\<open>rows()\<close> of the matrix the method was called on.
\<close>

function pivot_search :: "nat \<Rightarrow> 'a::{zero,one,plus,minus,uminus,times,divide} matrix \<Rightarrow> nat \<Rightarrow> nat \<Rightarrow> nat" where
  "pivot_search n tmp i j =
     (if j < n \<and> elem tmp j i = 0 then pivot_search n tmp i (Suc j) else j)"
  by pat_completeness auto
termination
  by (relation "measure (\<lambda>(n, tmp, i, j). n - j)") auto

text \<open>
  The row swap of \<^verbatim>\<open>determinant\<close>:
  \<^verbatim>\<open>for(k = i; k < columns(); ++k) std::swap(tmp(i,k), tmp(j,k));\<close>
\<close>

function det_swap :: "nat \<Rightarrow> nat \<Rightarrow> nat \<Rightarrow> nat \<Rightarrow> 'a matrix \<Rightarrow> 'a matrix" where
  "det_swap cols i j k tmp =
     (if k < cols then det_swap cols i j (Suc k) (swap_entries tmp i j k) else tmp)"
  by pat_completeness auto
termination
  by (relation "measure (\<lambda>(cols, i, j, k, tmp). cols - k)") auto

section \<open>determinant\<close>

text \<open>
  \<^verbatim>\<open>size_t\<close> subtraction wraps around at \<open>2 ^ 64\<close>; \<open>size_sub a b\<close> is \<^verbatim>\<open>a - b\<close> for two
  \<^verbatim>\<open>size_t\<close> values.
\<close>

definition size_sub :: "nat \<Rightarrow> nat \<Rightarrow> nat" where
  "size_sub a b = (2 ^ 64 + a - b) mod 2 ^ 64"

text \<open>
  The innermost loop of the elimination,
  \<^verbatim>\<open>for(k = i; k < columns(); ++k) tmp(j,k) = tmp(j,k) - (tmp(i,k) / tmp(i,i)) * entry;\<close>
\<close>

function det_elim_cols :: "nat \<Rightarrow> nat \<Rightarrow> nat \<Rightarrow> 'a::{zero,one,plus,minus,uminus,times,divide} \<Rightarrow> nat \<Rightarrow> 'a matrix \<Rightarrow> 'a matrix" where
  "det_elim_cols cols i j entry k tmp =
     (if k < cols
      then det_elim_cols cols i j entry (Suc k)
             (put tmp j k (elem tmp j k - (elem tmp i k div elem tmp i i) * entry))
      else tmp)"
  by pat_completeness auto
termination
  by (relation "measure (\<lambda>(cols, i, j, entry, k, tmp). cols - k)") auto

text \<open>
  \<^verbatim>\<open>for(j = i + 1; j < rows(); ++j) { T entry = tmp(j,i); ... }\<close>
\<close>

function det_elim_rows :: "nat \<Rightarrow> nat \<Rightarrow> nat \<Rightarrow> nat \<Rightarrow> 'a::{zero,one,plus,minus,uminus,times,divide} matrix \<Rightarrow> 'a matrix" where
  "det_elim_rows n cols i j tmp =
     (if j < n
      then det_elim_rows n cols i (Suc j) (det_elim_cols cols i j (elem tmp j i) i tmp)
      else tmp)"
  by pat_completeness auto
termination
  by (relation "measure (\<lambda>(n, cols, i, j, tmp). n - j)") auto

text \<open>\<^verbatim>\<open>for(i = 0; i < rows(); ++i) res = res * tmp(i,i);\<close>\<close>

function diag_product :: "nat \<Rightarrow> nat \<Rightarrow> 'a::{zero,one,plus,minus,uminus,times,divide} matrix \<Rightarrow> 'a \<Rightarrow> 'a" where
  "diag_product n i tmp res =
     (if i < n then diag_product n (Suc i) tmp (res * elem tmp i i) else res)"
  by pat_completeness auto
termination
  by (relation "measure (\<lambda>(n, i, tmp, res). n - i)") auto

text \<open>
  The main loop of \<^verbatim>\<open>determinant\<close>, \<^verbatim>\<open>for(i = 0, j; i < rows() - 1; ++i)\<close>, followed by the
  product of the diagonal and the sign. \<open>bound\<close> is the value of \<^verbatim>\<open>rows() - 1\<close>. The
  function returns what \<^verbatim>\<open>determinant\<close> returns: \<^verbatim>\<open>T1(0)\<close> from inside the loop when the
  pivot search fails, \<^verbatim>\<open>b ? -res : res\<close> otherwise.
\<close>

function det_loop :: "nat \<Rightarrow> nat \<Rightarrow> nat \<Rightarrow> nat \<Rightarrow> 'a::{zero,one,plus,minus,uminus,times,divide} matrix \<Rightarrow> bool \<Rightarrow> 'a" where
  "det_loop bound n cols i tmp b =
     (if i < bound
      then (let j = pivot_search n tmp i i in
            if j = n then 0
            else (let tmp1 = (if i \<noteq> j then det_swap cols i j i tmp else tmp);
                      b1 = (if i \<noteq> j then \<not> b else b)
                  in det_loop bound n cols (Suc i) (det_elim_rows n cols i (Suc i) tmp1) b1))
      else (let res = diag_product n 0 tmp 1 in if b then - res else res))"
  by pat_completeness auto
termination
  by (relation "measure (\<lambda>(bound, n, cols, i, tmp, b). bound - i)") auto

text \<open>
  \<^verbatim>\<open>determinant()\<close>: the assertion \<^verbatim>\<open>rows() == columns()\<close>, \<^verbatim>\<open>tmp\<close> a copy of the matrix,
  \<^verbatim>\<open>res = T1(1)\<close> and \<^verbatim>\<open>b = 0\<close>, then the loop. The result type \<^verbatim>\<open>T1\<close> is taken to be \<^verbatim>\<open>T\<close>
  (the declaration \<^verbatim>\<open>matrix<T1> tmp = matrix(*this)\<close> has no other instance), so the
  variable \<^verbatim>\<open>T entry\<close> holds the entry unchanged. The same holds for \<^verbatim>\<open>inverse\<close>.
\<close>

definition determinant :: "'a::{zero,one,plus,minus,uminus,times,divide} matrix \<Rightarrow> error + 'a" where
  "determinant m =
     (if rows m = columns m
      then Inr (det_loop (size_sub (rows m) 1) (rows m) (columns m) 0 (matrix_copy m) False)
      else Inl AssertionFailure)"

section \<open>inverse\<close>

text \<open>
  The loops of \<^verbatim>\<open>inverse\<close> work on the pair \<^verbatim>\<open>(tmp, ret)\<close>. \<open>n\<close> and \<open>cols\<close> are \<^verbatim>\<open>rows()\<close>
  and \<^verbatim>\<open>columns()\<close> of the matrix the method was called on.

  The row swap, one loop for both matrices:
  \<^verbatim>\<open>for(k = i; k < columns(); ++k) { std::swap(tmp(i,k), tmp(j,k)); std::swap(ret(i,k), ret(j,k)); }\<close>
\<close>

function inv_swap :: "nat \<Rightarrow> nat \<Rightarrow> nat \<Rightarrow> nat \<Rightarrow> 'a matrix \<times> 'a matrix \<Rightarrow> 'a matrix \<times> 'a matrix" where
  "inv_swap cols i j k (tmp, ret) =
     (if k < cols
      then inv_swap cols i j (Suc k) (swap_entries tmp i j k, swap_entries ret i j k)
      else (tmp, ret))"
  by pat_completeness auto
termination
  by (relation "measure (\<lambda>(cols, i, j, k, s). cols - k)") auto

text \<open>
  The normalisation of row \<open>i\<close>:
  \<^verbatim>\<open>for(int j = 0; j < columns(); ++j) { if(j == i) continue;
       tmp(i,j) = tmp(i,j) / tmp(i,i); ret(i,j) = ret(i,j) / tmp(i,i); }\<close>
\<close>

function inv_normalize :: "nat \<Rightarrow> nat \<Rightarrow> nat \<Rightarrow> 'a::{zero,one,plus,minus,uminus,times,divide} matrix \<times> 'a matrix \<Rightarrow> 'a matrix \<times> 'a matrix" where
  "inv_normalize cols i j (tmp, ret) =
     (if j < cols
      then (if j = i then inv_normalize cols i (Suc j) (tmp, ret)
            else inv_normalize cols i (Suc j)
                   (put tmp i j (elem tmp i j div elem tmp i i),
                    put ret i j (elem ret i j div elem (put tmp i j (elem tmp i j div elem tmp i i)) i i)))
      else (tmp, ret))"
  by pat_completeness auto
termination
  by (relation "measure (\<lambda>(cols, i, j, s). cols - j)") auto

text \<open>
  The elimination of column \<open>i\<close> from row \<open>j\<close>:
  \<^verbatim>\<open>for(k = 0; k < columns(); ++k) {
       tmp(j,k) = tmp(j,k) - (tmp(i,k) / tmp(i,i)) * entry;
       ret(j,k) = ret(j,k) - (ret(i,k) / tmp(i,i)) * entry; }\<close>
\<close>

function inv_elim_cols ::
  "nat \<Rightarrow> nat \<Rightarrow> nat \<Rightarrow> 'a::{zero,one,plus,minus,uminus,times,divide} \<Rightarrow> nat \<Rightarrow> 'a matrix \<times> 'a matrix \<Rightarrow> 'a matrix \<times> 'a matrix" where
  "inv_elim_cols cols i j entry k (tmp, ret) =
     (if k < cols
      then inv_elim_cols cols i j entry (Suc k)
             (put tmp j k (elem tmp j k - (elem tmp i k div elem tmp i i) * entry),
              put ret j k (elem ret j k -
                (elem ret i k div
                   elem (put tmp j k (elem tmp j k - (elem tmp i k div elem tmp i i) * entry)) i i)
                * entry))
      else (tmp, ret))"
  by pat_completeness auto
termination
  by (relation "measure (\<lambda>(cols, i, j, entry, k, s). cols - k)") auto

text \<open>
  \<^verbatim>\<open>for(j = 0; j < rows(); ++j) { if(j == i) continue; T1 entry = tmp(j,i); ... }\<close>
\<close>

function inv_elim_rows ::
  "nat \<Rightarrow> nat \<Rightarrow> nat \<Rightarrow> nat \<Rightarrow> 'a::{zero,one,plus,minus,uminus,times,divide} matrix \<times> 'a matrix \<Rightarrow> 'a matrix \<times> 'a matrix" where
  "inv_elim_rows n cols i j (tmp, ret) =
     (if j < n
      then (if j = i then inv_elim_rows n cols i (Suc j) (tmp, ret)
            else inv_elim_rows n cols i (Suc j)
                   (inv_elim_cols cols i j (elem tmp j i) 0 (tmp, ret)))
      else (tmp, ret))"
  by pat_completeness auto
termination
  by (relation "measure (\<lambda>(n, cols, i, j, s). n - j)") auto

text \<open>
  The steps between the row swap and the elimination: the normalisation loop, then
  \<^verbatim>\<open>ret(i,i) = ret(i,i) / tmp(i,i); tmp(i,i) = 1.0;\<close>
\<close>

definition inv_scale_pivot :: "nat \<Rightarrow> 'a::{zero,one,plus,minus,uminus,times,divide} matrix \<times> 'a matrix \<Rightarrow> 'a matrix \<times> 'a matrix" where
  "inv_scale_pivot i s =
     (case s of (tmp, ret) \<Rightarrow> (put tmp i i 1, put ret i i (elem ret i i div elem tmp i i)))"

text \<open>
  One iteration of the main loop \<^verbatim>\<open>for(i = 0, j; i < rows(); ++i)\<close>: the pivot search, the
  \<^verbatim>\<open>throw degenerate_matrix_error()\<close> when \<^verbatim>\<open>j == rows()\<close>, the swap when \<^verbatim>\<open>i != j\<close>, the
  normalisation and the elimination.
\<close>

definition inverse_body ::
  "nat \<Rightarrow> nat \<Rightarrow> nat \<Rightarrow> 'a::{zero,one,plus,minus,uminus,times,divide} matrix \<times> 'a matrix \<Rightarrow> error + 'a matrix \<times> 'a matrix" where
  "inverse_body n cols i s =
     (let j = pivot_search n (fst s) i i in
      if j = n then Inl DegenerateMatrix
      else Inr (inv_elim_rows n cols i 0
                 (inv_scale_pivot i
                   (inv_normalize cols i 0
                     (if i \<noteq> j then inv_swap cols i j i s else s)))))"

function inverse_loop ::
  "nat \<Rightarrow> nat \<Rightarrow> nat \<Rightarrow> 'a::{zero,one,plus,minus,uminus,times,divide} matrix \<times> 'a matrix \<Rightarrow> error + 'a matrix" where
  "inverse_loop n cols i s =
     (if i < n
      then (case inverse_body n cols i s of
              Inl e \<Rightarrow> Inl e
            | Inr s1 \<Rightarrow> inverse_loop n cols (Suc i) s1)
      else Inr (snd s))"
  by pat_completeness auto
termination
  by (relation "measure (\<lambda>(n, cols, i, s). n - i)") auto

text \<open>
  \<^verbatim>\<open>inverse()\<close>: the assertion \<^verbatim>\<open>rows() == columns()\<close>, \<^verbatim>\<open>tmp\<close> a copy of the matrix,
  \<^verbatim>\<open>ret = identity(rows())\<close>, the main loop, \<^verbatim>\<open>return ret\<close>.
\<close>

definition inverse_mat :: "'a::{zero,one,plus,minus,uminus,times,divide} matrix \<Rightarrow> error + 'a matrix" where
  "inverse_mat m =
     (if rows m = columns m
      then inverse_loop (rows m) (columns m) 0 (matrix_copy m, identity (rows m))
      else Inl AssertionFailure)"

section \<open>The linear solver of gauss.h\<close>

text \<open>\<^verbatim>\<open>for(auto &a : A) assert(a.size() <= A.size());\<close> with \<open>n\<close> the value of \<^verbatim>\<open>A.size()\<close>.\<close>

primrec rows_fit :: "nat \<Rightarrow> 'a list list \<Rightarrow> bool" where
  "rows_fit n [] = True"
| "rows_fit n (a # as) = (length a \<le> n \<and> rows_fit n as)"

text \<open>
  \<^verbatim>\<open>for(i = 0; i < A.size(); ++i) for(j = 0; j < A[i].size(); ++j) m(i,j) = A[i][j];\<close>
\<close>

function gauss_fill_cols :: "'a list list \<Rightarrow> nat \<Rightarrow> nat \<Rightarrow> 'a matrix \<Rightarrow> 'a matrix" where
  "gauss_fill_cols A i j m =
     (if j < length (A ! i) then gauss_fill_cols A i (Suc j) (put m i j (A ! i ! j)) else m)"
  by pat_completeness auto
termination
  by (relation "measure (\<lambda>(A, i, j, m). length (A ! i) - j)") auto

function gauss_fill_rows :: "'a list list \<Rightarrow> nat \<Rightarrow> 'a matrix \<Rightarrow> 'a matrix" where
  "gauss_fill_rows A i m =
     (if i < length A then gauss_fill_rows A (Suc i) (gauss_fill_cols A i 0 m) else m)"
  by pat_completeness auto
termination
  by (relation "measure (\<lambda>(A, i, m). length A - i)") auto

text \<open>
  \<^verbatim>\<open>for(i = 0; i < Y.size(); ++i) m(0,i) = Y[i];\<close> The loop that follows the declaration of
  the matrix \<^verbatim>\<open>y\<close> assigns to \<^verbatim>\<open>m\<close>.
\<close>

function gauss_fill_y :: "'a list \<Rightarrow> nat \<Rightarrow> 'a matrix \<Rightarrow> 'a matrix" where
  "gauss_fill_y Y i m =
     (if i < length Y then gauss_fill_y Y (Suc i) (put m 0 i (Y ! i)) else m)"
  by pat_completeness auto
termination
  by (relation "measure (\<lambda>(Y, i, m). length Y - i)") auto

text \<open>
  \<^verbatim>\<open>gauss(A, Y)\<close>: the two assertions, \<^verbatim>\<open>m = matrix<T>(A.size(), A.size())\<close> filled from
  \<^verbatim>\<open>A\<close>, \<^verbatim>\<open>y = matrix<T>(1, A.size())\<close>, the loop over \<^verbatim>\<open>Y\<close>, and
  \<^verbatim>\<open>return m.inverse() * y\<close>. The source declares the return type \<^verbatim>\<open>std::vector<T>\<close> and
  has no conversion from a matrix to it; the model returns the product matrix.
\<close>

definition gauss :: "'a::{zero,one,plus,minus,uminus,times,divide} list list \<Rightarrow> 'a list \<Rightarrow> error + 'a matrix" where
  "gauss A Y =
     (if length A = length Y
      then (if rows_fit (length A) A
            then (case inverse_mat
                         (gauss_fill_y Y 0
                           (gauss_fill_rows A 0 (matrix_new (length A) (length A)))) of
                    Inl e \<Rightarrow> Inl e
                  | Inr r \<Rightarrow> mult r (matrix_new 1 (length A)))
            else Inl AssertionFailure)
      else Inl AssertionFailure)"

section \<open>The Fast Fourier Transform of fft.h\<close>

text \<open>
  \<^verbatim>\<open>FFT(P, inv)\<close> overwrites the vector \<^verbatim>\<open>P\<close> and keeps the function-local
  \<^verbatim>\<open>static std::vector<std::complex<long double>> roots\<close> between calls. The model passes
  the cache in and returns it with the new \<^verbatim>\<open>P\<close>. The entries are complex numbers over the
  reals, \<^verbatim>\<open>M_PI\<close> is \<open>pi\<close>, and \<^verbatim>\<open>cos\<close>, \<^verbatim>\<open>sin\<close> are exact. The loops whose exit depends on a
  value that is doubled, halved or added are partial functions: \<open>None\<close> is a loop that
  never exits. Sizes are natural numbers; the doubling of a \<^verbatim>\<open>size_t\<close> does not wrap
  around for a vector that fits in memory.

  \<^verbatim>\<open>while(length < P.size()) length <<= 1;\<close>
\<close>

partial_function (option) grow_length :: "nat \<Rightarrow> nat \<Rightarrow> nat option" where
  "grow_length len sz = (if len < sz then grow_length (2 * len) sz else Some len)"

text \<open>\<^verbatim>\<open>std::vector::resize(n)\<close>: truncate, or append value-initialised (zero) entries.\<close>

definition resize :: "nat \<Rightarrow> 'a::zero list \<Rightarrow> 'a list" where
  "resize n xs = take n xs @ replicate (n - length xs) 0"

text \<open>\<^verbatim>\<open>while(j >= b) { j -= b; b >>= 1; }\<close>, returning the final \<^verbatim>\<open>j\<close> and \<^verbatim>\<open>b\<close>.\<close>

partial_function (option) carry :: "nat \<Rightarrow> nat \<Rightarrow> (nat \<times> nat) option" where
  "carry j b = (if b \<le> j then carry (j - b) (b div 2) else Some (j, b))"

text \<open>\<^verbatim>\<open>std::swap(P[i], P[j])\<close>.\<close>

definition swap_list :: "'a list \<Rightarrow> nat \<Rightarrow> nat \<Rightarrow> 'a list" where
  "swap_list P i j = (P[i := P ! j])[j := P ! i]"

text \<open>
  The permutation loop:
  \<^verbatim>\<open>for(size_t i = 1, j = 0; i < P.size(); ++i) {
       int b = P.size() >> 1;
       while(j >= b) { j -= b; b >>= 1; }
       if(i < j) std::swap(P[i], P[j]); }\<close>
  \<^verbatim>\<open>j\<close> is declared in the loop header and lives across the iterations; \<^verbatim>\<open>b\<close> is
  local to the body.
\<close>

partial_function (option) permute :: "nat \<Rightarrow> nat \<Rightarrow> complex list \<Rightarrow> complex list option" where
  "permute i j P =
     (if i < length P
      then Option.bind (carry j (length P div 2))
             (\<lambda>jb. permute (Suc i) (fst jb) (if i < fst jb then swap_list P i (fst jb) else P))
      else Some P)"

text \<open>
  \<^verbatim>\<open>for(i = 0; i < P.size() / 2; ++i) roots[i] = complex(cos(theta * i), sin(theta * i));\<close>
  with \<open>half\<close> the value of \<^verbatim>\<open>P.size() / 2\<close>.
\<close>

function fill_roots :: "real \<Rightarrow> nat \<Rightarrow> nat \<Rightarrow> complex list \<Rightarrow> complex list" where
  "fill_roots theta half i roots =
     (if i < half
      then fill_roots theta half (Suc i)
             (roots[i := Complex (cos (theta * real i)) (sin (theta * real i))])
      else roots)"
  by pat_completeness auto
termination
  by (relation "measure (\<lambda>(theta, half, i, roots). half - i)") auto

text \<open>
  The cache test and refill:
  \<^verbatim>\<open>if(roots.size() != P.size() / 2) { roots.clear(); roots.resize(P.size()); for ... }\<close>
\<close>

definition update_roots :: "real \<Rightarrow> nat \<Rightarrow> complex list \<Rightarrow> complex list" where
  "update_roots theta sz roots =
     (if length roots \<noteq> sz div 2
      then fill_roots theta (sz div 2) 0 (resize sz [])
      else roots)"

text \<open>
  The butterflies of one block:
  \<^verbatim>\<open>for(k = 0; k < i / 2; ++k) { auto u = P[j + k]; auto v = P[j + k + i / 2] * roots[layer * k];
       P[j + k] = u + v; P[j + k + i / 2] = u - v; }\<close>
\<close>

function butterfly_k ::
  "nat \<Rightarrow> nat \<Rightarrow> nat \<Rightarrow> nat \<Rightarrow> complex list \<Rightarrow> complex list \<Rightarrow> complex list" where
  "butterfly_k i layer j k roots P =
     (if k < i div 2
      then butterfly_k i layer j (Suc k) roots
             ((P[j + k := P ! (j + k) + P ! (j + k + i div 2) * roots ! (layer * k)])
                [j + k + i div 2 := P ! (j + k) - P ! (j + k + i div 2) * roots ! (layer * k)])
      else P)"
  by pat_completeness auto
termination
  by (relation "measure (\<lambda>(i, layer, j, k, roots, P). i div 2 - k)") auto

text \<open>\<^verbatim>\<open>for(j = 0; j < P.size(); j += i)\<close> over the blocks of one stage.\<close>

partial_function (option) butterfly_j ::
  "nat \<Rightarrow> nat \<Rightarrow> nat \<Rightarrow> complex list \<Rightarrow> complex list \<Rightarrow> complex list option" where
  "butterfly_j i layer j roots P =
     (if j < length P
      then butterfly_j i layer (j + i) roots (butterfly_k i layer j 0 roots P)
      else Some P)"

text \<open>
  \<^verbatim>\<open>for(i = 2; i <= P.size(); i <<= 1) { int layer = P.size() / i; ... }\<close> over the stages.
\<close>

partial_function (option) butterfly_i :: "nat \<Rightarrow> complex list \<Rightarrow> complex list \<Rightarrow> complex list option" where
  "butterfly_i i roots P =
     (if i \<le> length P
      then Option.bind (butterfly_j i (length P div i) 0 roots P) (butterfly_i (2 * i) roots)
      else Some P)"

text \<open>\<^verbatim>\<open>if(inv == -1) for(auto &a : P) a /= P.size();\<close>\<close>

definition scale_inverse :: "int \<Rightarrow> complex list \<Rightarrow> complex list" where
  "scale_inverse direction P =
     (if direction = - 1 then map (\<lambda>a. a / of_nat (length P)) P else P)"

text \<open>
  The whole function. The second argument of the source, \<^verbatim>\<open>inv\<close>, is called \<open>direction\<close>
  here; \<^verbatim>\<open>theta = inv * 2 * M_PI / P.size()\<close>. The result is the pair of the cache and of
  \<^verbatim>\<open>P\<close> after the call.
\<close>

definition FFT :: "complex list \<Rightarrow> complex list \<Rightarrow> int \<Rightarrow> (complex list \<times> complex list) option" where
  "FFT roots P direction =
     Option.bind (grow_length 1 (length P)) (\<lambda>len.
     Option.bind (permute 1 0 (resize len P)) (\<lambda>P1.
     Option.bind
       (butterfly_i 2
          (update_roots (real_of_int (direction * 2) * pi / real (length P1)) (length P1) roots) P1)
       (\<lambda>P2. Some (update_roots (real_of_int (direction * 2) * pi / real (length P1)) (length P1) roots,
                   scale_inverse direction P2))))"

text \<open>
  The caches the program can hold: the static vector starts empty, and every call of \<^verbatim>\<open>FFT\<close>
  that returns leaves the cache it computed.
\<close>

inductive cache_reachable :: "complex list \<Rightarrow> bool" where
  initial: "cache_reachable []"
| call: "cache_reachable roots \<Longrightarrow> FFT roots P direction = Some (roots1, P1)
         \<Longrightarrow> cache_reachable roots1"

text \<open>
  The bit reversal the specification names, for comparison with the permutation loop:
  the index whose \<open>bits\<close> low bits are those of \<open>i\<close> in reverse order.
\<close>

fun spec_bit_reverse :: "nat \<Rightarrow> nat \<Rightarrow> nat" where
  "spec_bit_reverse 0 i = 0"
| "spec_bit_reverse (Suc bits) i = (i mod 2) * 2 ^ bits + spec_bit_reverse bits (i div 2)"

section \<open>The arithmetic of \<^verbatim>\<open>long double\<close>\<close>

text \<open>
  The definitions above work for every element type with \<^verbatim>\<open>+ - * /\<close>, 0 and 1. The rational
  numbers are one instance (exact arithmetic), the integers another. This section gives a
  third: \<^verbatim>\<open>long double\<close> in the 80-bit extended format of the x87 unit, which is what
  \<^verbatim>\<open>matrix<long double>\<close> computes with on x86 Linux. A value is a rational number, an
  infinity or a NaN. Each operation computes the exact result and rounds it to the nearest
  number with a 64-bit significand, ties to the even significand; the binary exponent of a
  normal number lies between \<open>-16382\<close> and \<open>16383\<close>, smaller numbers are subnormal (multiples
  of \<open>2 ^ -16445\<close>), and a result that rounds to \<open>2 ^ 16384\<close> or more in magnitude is an
  infinity. A NaN differs from 0, as in the test \<^verbatim>\<open>== T1(0)\<close>. Two things are left out: the
  sign of zero (\<^verbatim>\<open>-0.0 == T1(0)\<close> holds; only a quotient by a negative zero would differ,
  and the loops divide by pivots, which differ from zero) and the payload of a NaN. The
  datatype also has values \<open>Finite q\<close> for \<open>q\<close> outside the format; rounding never returns
  one.

  \<open>pow2 k\<close> is \<open>2 ^ k\<close> for an integer \<open>k\<close>, \<open>floor_log2 q\<close> the binary exponent of \<open>q \<noteq> 0\<close> (the
  \<open>k\<close> with \<open>2 ^ k \<le> \<bar>q\<bar> < 2 ^ (k + 1)\<close>), \<open>round_even\<close> rounds to the nearest integer, ties to
  even; \<open>ulp_exp q\<close> is the exponent of the spacing of the format at \<open>q\<close>, and \<open>round_grid q\<close>
  the nearest multiple of that spacing.
\<close>

datatype long_double = Finite rat | PosInf | NegInf | NaN

definition pow2 :: "int \<Rightarrow> rat" where
  "pow2 k = 2 powi k"

definition floor_log2 :: "rat \<Rightarrow> int" where
  "floor_log2 q =
     (let d = bitlen (fst (quotient_of \<bar>q\<bar>)) - bitlen (snd (quotient_of \<bar>q\<bar>))
      in if pow2 d \<le> \<bar>q\<bar> then d else d - 1)"

definition round_even :: "rat \<Rightarrow> int" where
  "round_even x =
     (if x - of_int \<lfloor>x\<rfloor> < 1 / 2 then \<lfloor>x\<rfloor>
      else if 1 / 2 < x - of_int \<lfloor>x\<rfloor> then \<lfloor>x\<rfloor> + 1
      else if even \<lfloor>x\<rfloor> then \<lfloor>x\<rfloor> else \<lfloor>x\<rfloor> + 1)"

definition ulp_exp :: "rat \<Rightarrow> int" where
  "ulp_exp q = max (floor_log2 q) (- 16382) - 63"

definition round_grid :: "rat \<Rightarrow> rat" where
  "round_grid q = of_int (round_even (q / pow2 (ulp_exp q))) * pow2 (ulp_exp q)"

definition round_ld :: "rat \<Rightarrow> long_double" where
  "round_ld q =
     (if q = 0 then Finite 0
      else if 16384 \<le> floor_log2 (round_grid q) then (if 0 < q then PosInf else NegInf)
      else Finite (round_grid q))"

fun ld_neg :: "long_double \<Rightarrow> long_double" where
  "ld_neg (Finite a) = Finite (- a)"
| "ld_neg PosInf = NegInf"
| "ld_neg NegInf = PosInf"
| "ld_neg NaN = NaN"

fun ld_add :: "long_double \<Rightarrow> long_double \<Rightarrow> long_double" where
  "ld_add NaN y = NaN"
| "ld_add x NaN = NaN"
| "ld_add PosInf NegInf = NaN"
| "ld_add NegInf PosInf = NaN"
| "ld_add PosInf y = PosInf"
| "ld_add x PosInf = PosInf"
| "ld_add NegInf y = NegInf"
| "ld_add x NegInf = NegInf"
| "ld_add (Finite a) (Finite b) = round_ld (a + b)"

definition inf_sign :: "bool \<Rightarrow> long_double" where
  "inf_sign positive = (if positive then PosInf else NegInf)"

fun ld_mul :: "long_double \<Rightarrow> long_double \<Rightarrow> long_double" where
  "ld_mul NaN y = NaN"
| "ld_mul x NaN = NaN"
| "ld_mul (Finite a) (Finite b) = round_ld (a * b)"
| "ld_mul (Finite a) PosInf = (if a = 0 then NaN else inf_sign (0 < a))"
| "ld_mul (Finite a) NegInf = (if a = 0 then NaN else inf_sign (a < 0))"
| "ld_mul PosInf (Finite b) = (if b = 0 then NaN else inf_sign (0 < b))"
| "ld_mul NegInf (Finite b) = (if b = 0 then NaN else inf_sign (b < 0))"
| "ld_mul PosInf PosInf = PosInf"
| "ld_mul NegInf NegInf = PosInf"
| "ld_mul PosInf NegInf = NegInf"
| "ld_mul NegInf PosInf = NegInf"

fun ld_div :: "long_double \<Rightarrow> long_double \<Rightarrow> long_double" where
  "ld_div NaN y = NaN"
| "ld_div x NaN = NaN"
| "ld_div (Finite a) (Finite b) =
     (if b = 0 then (if a = 0 then NaN else inf_sign (0 < a)) else round_ld (a / b))"
| "ld_div (Finite a) PosInf = Finite 0"
| "ld_div (Finite a) NegInf = Finite 0"
| "ld_div PosInf (Finite b) = inf_sign (0 \<le> b)"
| "ld_div NegInf (Finite b) = inf_sign (b < 0)"
| "ld_div PosInf PosInf = NaN"
| "ld_div PosInf NegInf = NaN"
| "ld_div NegInf PosInf = NaN"
| "ld_div NegInf NegInf = NaN"

instantiation long_double :: "{zero,one,plus,minus,uminus,times,divide}"
begin

definition zero_long_double_def: "0 = Finite 0"
definition one_long_double_def: "1 = Finite 1"
definition plus_long_double_def: "x + y = ld_add x y"
definition uminus_long_double_def: "- x = ld_neg x"
definition minus_long_double_def: "x - y = ld_add x (ld_neg y)"
definition times_long_double_def: "x * y = ld_mul x y"
definition divide_long_double_def: "x div y = ld_div x y"

instance ..

end




section \<open>Notions used in the statements and proofs about inverse and determinant\<close>

text \<open>
  The class invariant of \<^verbatim>\<open>matrix\<close>: \<open>n\<close> rows, every row of length \<open>c\<close>. Every constructor
  establishes it.
\<close>

definition rect :: "nat \<Rightarrow> nat \<Rightarrow> 'a matrix \<Rightarrow> bool" where
  "rect n c m = (length m = n \<and> (\<forall>r<n. length (m ! r) = c))"

text \<open>Two matrices with the same entries in rows and columns \<open>i, \<dots>, n - 1\<close>.\<close>

definition agree :: "nat \<Rightarrow> nat \<Rightarrow> 'a matrix \<Rightarrow> 'a matrix \<Rightarrow> bool" where
  "agree i n a b = (\<forall>r c. i \<le> r \<and> r < n \<and> i \<le> c \<and> c < n \<longrightarrow> elem a r c = elem b r c)"

text \<open>The working copy after the conditional row swap \<^verbatim>\<open>if(i != j) { ... }\<close>.\<close>

definition swapped :: "nat \<Rightarrow> nat \<Rightarrow> nat \<Rightarrow> 'a matrix \<Rightarrow> 'a matrix" where
  "swapped n i j tmp = (if i \<noteq> j then det_swap n i j i tmp else tmp)"

text \<open>
  The states \<^verbatim>\<open>(tmp, ret)\<close> that the main loop of \<^verbatim>\<open>inverse\<close> reaches at the head of
  iteration \<open>i\<close> when called on \<open>m\<close>.
\<close>

inductive inverse_reaches :: "'a::{zero,one,plus,minus,uminus,times,divide} matrix \<Rightarrow> nat \<Rightarrow> 'a matrix \<times> 'a matrix \<Rightarrow> bool"
  for m :: "'a matrix" where
  start: "inverse_reaches m 0 (matrix_copy m, identity (rows m))"
| step: "inverse_reaches m i s \<Longrightarrow> i < rows m
         \<Longrightarrow> inverse_body (rows m) (columns m) i s = Inr s1
         \<Longrightarrow> inverse_reaches m (Suc i) s1"

text \<open>
  A pivot is missing in column \<open>i\<close> of \<^verbatim>\<open>inverse\<close> when the loop reaches column \<open>i\<close> with a
  working copy that has no nonzero entry (no entry that fails the test
  \<^verbatim>\<open>tmp(j,i) == T1(0)\<close>) in the rows \<open>i, \<dots>, rows() - 1\<close> of that column.
\<close>

definition missing_pivot_at :: "'a::{zero,one,plus,minus,uminus,times,divide} matrix \<Rightarrow> nat \<Rightarrow> bool" where
  "missing_pivot_at m i =
     (\<exists>tmp ret. inverse_reaches m i (tmp, ret) \<and> i < rows m
        \<and> (\<forall>j. i \<le> j \<and> j < rows m \<longrightarrow> elem tmp j i = 0))"

definition missing_pivot :: "'a::{zero,one,plus,minus,uminus,times,divide} matrix \<Rightarrow> bool" where
  "missing_pivot m = (\<exists>i. missing_pivot_at m i)"

section \<open>Simplifier setup\<close>

text \<open>
  The defining equation of a loop unfolds without end on a symbolic state; the loops are
  unfolded by hand, one iteration at a time.
\<close>

declare identity_loop.simps [simp del]
declare pivot_search.simps [simp del]
declare det_swap.simps [simp del]
declare det_elim_cols.simps [simp del]
declare det_elim_rows.simps [simp del]
declare diag_product.simps [simp del]
declare det_loop.simps [simp del]
declare mult_j.simps [simp del]
declare mult_k.simps [simp del]
declare mult_i.simps [simp del]
declare add_cols.simps [simp del]
declare add_rows.simps [simp del]
declare negate_cols.simps [simp del]
declare negate_rows.simps [simp del]
declare inv_swap.simps [simp del]
declare inv_normalize.simps [simp del]
declare inv_elim_cols.simps [simp del]
declare inv_elim_rows.simps [simp del]
declare inverse_loop.simps [simp del]
declare gauss_fill_cols.simps [simp del]
declare gauss_fill_rows.simps [simp del]
declare gauss_fill_y.simps [simp del]
declare fill_roots.simps [simp del]
declare butterfly_k.simps [simp del]

section \<open>The determinant of the empty matrix\<close>

lemma pivot_search_no_rows: "pivot_search 0 tmp i j = j"
  by (subst pivot_search.simps) simp

text \<open>
  Claim C10. On the 0-by-0 matrix \<^verbatim>\<open>determinant\<close> returns 0: the loop bound
  \<^verbatim>\<open>rows() - 1\<close> wraps around to \<open>2 ^ 64 - 1\<close>, so the loop body runs for \<open>i = 0\<close>; the pivot
  search over no rows stops at \<open>j = 0 = rows()\<close>, and the early \<^verbatim>\<open>return T1(0)\<close> is taken.
  The product of the (empty) diagonal, which the function would return had the loop been
  skipped, is 1.
\<close>

theorem determinant_empty_matrix:
  "rows (matrix_new 0 0 :: 'a::field matrix) = 0
   \<and> columns (matrix_new 0 0 :: 'a matrix) = 0
   \<and> size_sub (rows (matrix_new 0 0 :: 'a matrix)) 1 = 2 ^ 64 - 1
   \<and> pivot_search 0 (matrix_new 0 0 :: 'a matrix) 0 0 = rows (matrix_new 0 0 :: 'a matrix)
   \<and> determinant (matrix_new 0 0 :: 'a matrix) = Inr 0
   \<and> diag_product 0 0 (matrix_new 0 0 :: 'a matrix) 1 = 1"
  by (simp add: matrix_new_def matrix_fill_def rows_def columns_def determinant_def
      size_sub_def matrix_copy_def pivot_search_no_rows det_loop.simps [of _ 0]
      diag_product.simps [of 0])

section \<open>Unfolding the loops of FFT\<close>

lemma grow_length_step: "len < sz \<Longrightarrow> grow_length len sz = grow_length (2 * len) sz"
  by (subst grow_length.simps) simp

lemma grow_length_done: "\<not> len < sz \<Longrightarrow> grow_length len sz = Some len"
  by (subst grow_length.simps) simp

lemma carry_done: "j < b \<Longrightarrow> carry j b = Some (j, b)"
  by (subst carry.simps) simp

lemma fill_roots_step:
  "i < half \<Longrightarrow> fill_roots theta half i roots =
     fill_roots theta half (Suc i) (roots[i := Complex (cos (theta * real i)) (sin (theta * real i))])"
  by (subst fill_roots.simps) simp

lemma fill_roots_done: "\<not> i < half \<Longrightarrow> fill_roots theta half i roots = roots"
  by (subst fill_roots.simps) simp

lemma butterfly_k_step:
  "k < i div 2 \<Longrightarrow> butterfly_k i layer j k roots P =
     butterfly_k i layer j (Suc k) roots
       ((P[j + k := P ! (j + k) + P ! (j + k + i div 2) * roots ! (layer * k)])
          [j + k + i div 2 := P ! (j + k) - P ! (j + k + i div 2) * roots ! (layer * k)])"
  by (subst butterfly_k.simps) simp

lemma butterfly_k_done: "\<not> k < i div 2 \<Longrightarrow> butterfly_k i layer j k roots P = P"
  by (subst butterfly_k.simps) simp

lemma butterfly_j_step:
  "j < length P \<Longrightarrow>
   butterfly_j i layer j roots P =
     butterfly_j i layer (j + i) roots (butterfly_k i layer j 0 roots P)"
  by (subst butterfly_j.simps) simp

lemma butterfly_j_done: "\<not> j < length P \<Longrightarrow> butterfly_j i layer j roots P = Some P"
  by (subst butterfly_j.simps) simp

lemma butterfly_i_step:
  "i \<le> length P \<Longrightarrow>
   butterfly_i i roots P =
     Option.bind (butterfly_j i (length P div i) 0 roots P) (butterfly_i (2 * i) roots)"
  by (subst butterfly_i.simps) simp

lemma butterfly_i_done: "\<not> i \<le> length P \<Longrightarrow> butterfly_i i roots P = Some P"
  by (subst butterfly_i.simps) simp

lemma list_update_numeral: "(x # xs)[numeral k := y] = x # xs[pred_numeral k := y]"
  by (simp add: numeral_eq_Suc)

lemma replicate_numeral: "replicate (numeral k) x = x # replicate (pred_numeral k) x"
  by (simp add: numeral_eq_Suc)

subsection \<open>The permutation loop changes nothing\<close>

text \<open>
  The running index \<^verbatim>\<open>j\<close> starts at 0 and the body only ever subtracts from it, and only
  when \<^verbatim>\<open>j >= b\<close>, with \<^verbatim>\<open>b = P.size() / 2\<close> at least 1. So \<^verbatim>\<open>j\<close> stays 0, the test
  \<^verbatim>\<open>i < j\<close> never holds, and no two entries are swapped.
\<close>

lemma permute_no_swap: "1 \<le> i \<Longrightarrow> permute i 0 P = Some P"
proof (induction "length P - i" arbitrary: i)
  case 0
  then show ?case by (subst permute.simps) simp
next
  case (Suc d)
  then have "i < length P" and "0 < length P div 2" by auto
  moreover have "permute (Suc i) 0 P = Some P" using Suc by simp
  ultimately show ?case
    by (subst permute.simps) (simp add: carry_done)
qed

subsection \<open>Transforms of length four\<close>

lemma butterfly_i_four:
  "butterfly_i 2 (r0 # r1 # rs) [a, b, c, d] =
     Some [a + b * r0 + (c + d * r0) * r0, a - b * r0 + (c - d * r0) * r1,
           a + b * r0 - (c + d * r0) * r0, a - b * r0 - (c - d * r0) * r1]"
  by (simp add: butterfly_i_step butterfly_i_done butterfly_j_step butterfly_j_done
      butterfly_k_step butterfly_k_done list_update_numeral)

lemma update_roots_four:
  "length roots \<noteq> 2 \<Longrightarrow>
   update_roots theta 4 roots = [1, Complex (cos theta) (sin theta), 0, 0]"
  by (simp add: update_roots_def resize_def replicate_numeral fill_roots_step fill_roots_done
      complex_eq_iff)

lemma update_roots_keep: "length roots = sz div 2 \<Longrightarrow> update_roots theta sz roots = roots"
  by (simp add: update_roots_def)

lemma Suc4_eq: "Suc (Suc (Suc (Suc 0))) = 4"
  by simp

lemma FFT_four:
  "FFT roots [a, b, c, d] direction =
     Option.bind
       (butterfly_i 2 (update_roots (real_of_int (direction * 2) * pi / 4) 4 roots) [a, b, c, d])
       (\<lambda>P2. Some (update_roots (real_of_int (direction * 2) * pi / 4) 4 roots,
                   scale_inverse direction P2))"
  by (simp add: FFT_def grow_length_step grow_length_done resize_def permute_no_swap Suc4_eq)

lemma FFT_three:
  "FFT roots [a, b, c] direction = FFT roots [a, b, c, 0] direction"
  by (simp add: FFT_def grow_length_step grow_length_done resize_def Suc4_eq)

subsection \<open>The cache after a call\<close>

lemma length_fill_roots: "length (fill_roots theta half i roots) = length roots"
  by (induction theta half i roots rule: fill_roots.induct)
     (subst fill_roots.simps, simp)

lemma length_resize: "length (resize n xs) = n"
  by (simp add: resize_def)

lemma update_roots_two:
  "length roots \<noteq> 1 \<Longrightarrow> update_roots theta 2 roots = [1, 0]"
  by (simp add: update_roots_def resize_def replicate_numeral fill_roots_step fill_roots_done
      complex_eq_iff)

lemma length_update_roots:
  "length (update_roots theta sz roots) = (if length roots = sz div 2 then length roots else sz)"
  by (simp add: update_roots_def length_fill_roots length_resize)

lemma FFT_cache:
  assumes "FFT roots P direction = Some (roots1, P1)"
  shows "\<exists>theta sz. roots1 = update_roots theta sz roots"
  using assms by (auto simp: FFT_def split: bind_splits)

lemma update_roots_head:
  assumes "length (update_roots theta sz roots) = 2"
    and "length roots = 2 \<Longrightarrow> roots ! 0 = 1"
  shows "update_roots theta sz roots ! 0 = 1"
proof (cases "length roots = sz div 2")
  case True
  then show ?thesis using assms by (simp add: update_roots_keep)
next
  case False
  then have "sz = 2" using assms(1) by (simp add: length_update_roots)
  moreover from False this have "length roots \<noteq> 1" by simp
  ultimately show ?thesis by (simp add: update_roots_two)
qed

lemma cache_reachable_head: "cache_reachable roots \<Longrightarrow> length roots = 2 \<Longrightarrow> roots ! 0 = 1"
proof (induction rule: cache_reachable.induct)
  case initial
  then show ?case by simp
next
  case (call roots P direction roots1 P1)
  from call.hyps(2) obtain theta sz where r1: "roots1 = update_roots theta sz roots"
    using FFT_cache by blast
  show ?case
    unfolding r1 using call.prems call.IH by (intro update_roots_head) (simp_all add: r1)
qed

lemma roots_shape:
  assumes "cache_reachable roots"
  shows "\<exists>r1 rs. update_roots theta 4 roots = 1 # r1 # rs"
proof (cases "length roots = 2")
  case True
  then obtain x y where xy: "roots = [x, y]"
    by (cases roots; cases "tl roots"; cases "tl (tl roots)") auto
  with cache_reachable_head[OF assms True] have "x = 1" by simp
  with xy True show ?thesis by (simp add: update_roots_keep)
next
  case False
  then show ?thesis by (simp add: update_roots_four)
qed

subsection \<open>Every call returns\<close>

lemma grow_length_total:
  "0 < len \<Longrightarrow> \<exists>N. grow_length len sz = Some N \<and> sz \<le> N \<and> len \<le> N"
proof (induction "sz - len" arbitrary: len rule: less_induct)
  case less
  show ?case
  proof (cases "len < sz")
    case True
    with less.prems have "sz - 2 * len < sz - len" by simp
    from less.hyps [OF this] less.prems obtain N
      where "grow_length (2 * len) sz = Some N" "sz \<le> N" "2 * len \<le> N" by auto
    with True show ?thesis by (auto simp: grow_length_step)
  next
    case False
    then show ?thesis by (simp add: grow_length_done)
  qed
qed

lemma length_swap_list: "length (swap_list P i j) = length P"
  by (simp add: swap_list_def)

lemma length_butterfly_k: "length (butterfly_k i layer j k roots P) = length P"
proof (induction "i div 2 - k" arbitrary: k P)
  case 0
  then show ?case by (simp add: butterfly_k_done)
next
  case (Suc d)
  then have lt: "k < i div 2" and d: "d = i div 2 - Suc k" by auto
  from lt show ?case by (simp add: butterfly_k_step Suc.hyps(1) [OF d])
qed

lemma butterfly_j_total:
  "0 < i \<Longrightarrow> \<exists>P1. butterfly_j i layer j roots P = Some P1 \<and> length P1 = length P"
proof (induction "length P - j" arbitrary: j P rule: less_induct)
  case less
  show ?case
  proof (cases "j < length P")
    case True
    let ?P = "butterfly_k i layer j 0 roots P"
    have len: "length ?P = length P" by (rule length_butterfly_k)
    with True less.prems have "length ?P - (j + i) < length P - j" by simp
    from less.hyps [OF this less.prems] len True show ?thesis
      by (auto simp: butterfly_j_step)
  next
    case False
    then show ?thesis by (simp add: butterfly_j_done)
  qed
qed

lemma butterfly_i_total:
  "0 < i \<Longrightarrow> \<exists>P1. butterfly_i i roots P = Some P1 \<and> length P1 = length P"
proof (induction "Suc (length P) - i" arbitrary: i P rule: less_induct)
  case less
  show ?case
  proof (cases "i \<le> length P")
    case True
    from butterfly_j_total [OF less.prems, of "length P div i" 0 roots P] obtain P1
      where j: "butterfly_j i (length P div i) 0 roots P = Some P1" and len: "length P1 = length P"
      by blast
    from True less.prems len have "Suc (length P1) - 2 * i < Suc (length P) - i" by simp
    from less.hyps [OF this] less.prems obtain P2
      where "butterfly_i (2 * i) roots P1 = Some P2" "length P2 = length P1" by auto
    with True j len show ?thesis by (simp add: butterfly_i_step)
  next
    case False
    then show ?thesis by (simp add: butterfly_i_done)
  qed
qed

lemma length_scale_inverse: "length (scale_inverse direction P) = length P"
  by (simp add: scale_inverse_def)

text \<open>Every call of FFT returns; the buffer then has the padded length.\<close>

lemma FFT_total:
  "\<exists>N P1. grow_length 1 (length P) = Some N \<and> length P \<le> N \<and> 1 \<le> N \<and> length P1 = N
     \<and> FFT roots P direction
        = Some (update_roots (real_of_int (direction * 2) * pi / real N) N roots, P1)"
proof -
  obtain N where g: "grow_length 1 (length P) = Some N" and N: "length P \<le> N" "1 \<le> N"
    using grow_length_total [of 1 "length P"] by auto
  have p: "permute 1 0 (resize N P) = Some (resize N P)" by (simp add: permute_no_swap)
  have l: "length (resize N P) = N" by (simp add: resize_def)
  define rts where "rts = update_roots (real_of_int (direction * 2) * pi / real N) N roots"
  obtain P2 where b: "butterfly_i 2 rts (resize N P) = Some P2" and l2: "length P2 = N"
    using butterfly_i_total [of 2 rts "resize N P"] l by auto
  have "FFT roots P direction = Some (rts, scale_inverse direction P2)"
    by (simp only: FFT_def g p l b rts_def [symmetric] Option.bind.simps)
  with g N l2 show ?thesis by (auto simp: length_scale_inverse rts_def)
qed

lemma FFT_returns: "\<exists>roots1 P1. FFT roots P direction = Some (roots1, P1)"
  using FFT_total [of P roots direction] by blast

text \<open>
  After a call that refills the cache, the cache is as long as the buffer, so for a
  buffer of two or more entries the test fires again on the next call of the same length.
\<close>

lemma FFT_cache_length:
  assumes "FFT roots P direction = Some (roots1, P1)"
  shows "length roots1 = (if length roots = length P1 div 2 then length roots else length P1)"
proof -
  from FFT_total [of P roots direction] assms obtain N
    where "length P1 = N"
      and "roots1 = update_roots (real_of_int (direction * 2) * pi / real N) N roots"
    by auto
  then show ?thesis by (simp add: length_update_roots)
qed

lemma FFT_same_length_refills:
  assumes first: "FFT roots P direction = Some (roots1, P1)"
    and refill: "length roots \<noteq> length P1 div 2"
    and second: "FFT roots1 Q direction2 = Some (roots2, Q1)"
    and same: "length Q1 = length P1"
  shows "roots2 = fill_roots (real_of_int (direction2 * 2) * pi / real (length P1))
                    (length P1 div 2) 0 (resize (length P1) [])"
proof -
  have l1: "length roots1 = length P1" using FFT_cache_length [OF first] refill by simp
  from FFT_total [of P roots direction] first have "1 \<le> length P1" by auto
  then have ne: "length roots1 \<noteq> length P1 div 2" using l1 by simp
  from FFT_total [of Q roots1 direction2] second obtain N
    where "length Q1 = N"
      and "roots2 = update_roots (real_of_int (direction2 * 2) * pi / real N) N roots1"
    by auto
  with same ne show ?thesis by (simp add: update_roots_def)
qed

section \<open>Claims about FFT\<close>

text \<open>
  Claim C2 says that after the permutation loop the buffer is in bit-reversed order: the
  entry that was at index \<open>i\<close> is at the index with the bits of \<open>i\<close> reversed. The loop of
  the source leaves every buffer as it was (\<open>permute_no_swap\<close>). On the buffer
  \<open>[0, 1, 2, 3]\<close> of length 4 the entry of index 1 would have to be at index 2, the
  reversal of 1 on two bits; the loop returns \<open>[0, 1, 2, 3]\<close>, where index 2 holds the
  entry that was at index 2.
\<close>

theorem permutation_loop_leaves_order:
  "permute 1 0 (resize 4 [0, 1, 2, 3]) = Some [0, 1, 2, 3]
   \<and> spec_bit_reverse 2 1 = 2
   \<and> [0, 1, 2, 3] ! spec_bit_reverse 2 1 \<noteq> ([0, 1, 2, 3 :: complex]) ! 1"
  by (simp add: permute_no_swap resize_def eval_nat_numeral)

text \<open>
  Claim C3 says that a forward transform followed by an inverse transform gives the
  sequence back, padded with zeros, for the lengths 1, 2, 3, 5, 8 and 1000. Evaluated
  on the sequence \<open>[0, 1, 0]\<close> of length 3, starting from the empty cache, the two calls
  return \<open>[0, (1 - \<i>) / 2, 0, (1 + \<i>) / 2]\<close>, which is not \<open>[0, 1, 0, 0]\<close>.
\<close>

theorem fft_round_trip_length_three:
  "FFT [] [0, 1, 0] 1 = Some ([1, \<i>, 0, 0], [1, - 1, 1, - 1])
   \<and> FFT [1, \<i>, 0, 0] [1, - 1, 1, - 1] (- 1)
       = Some ([1, - \<i>, 0, 0], [0, (1 - \<i>) / 2, 0, (1 + \<i>) / 2])
   \<and> [0, (1 - \<i>) / 2, 0, (1 + \<i>) / 2] \<noteq> resize 4 [0, 1, 0]"
proof -
  have e1: "update_roots (real_of_int (1 * 2) * pi / 4) 4 [] = [1, \<i>, 0, 0]"
    by (simp add: update_roots_four complex_eq_iff)
  have e2: "update_roots (real_of_int (- 1 * 2) * pi / 4) 4 [1, \<i>, 0, 0] = [1, - \<i>, 0, 0]"
    by (simp add: update_roots_four complex_eq_iff)
  have "FFT [] [0, 1, 0] 1 = Some ([1, \<i>, 0, 0], [1, - 1, 1, - 1])"
    by (simp only: FFT_three FFT_four e1 butterfly_i_four) (simp add: scale_inverse_def)
  moreover have "FFT [1, \<i>, 0, 0] [1, - 1, 1, - 1] (- 1)
       = Some ([1, - \<i>, 0, 0], [0, (1 - \<i>) / 2, 0, (1 + \<i>) / 2])"
    by (simp only: FFT_four e2 butterfly_i_four) (simp add: scale_inverse_def complex_eq_iff)
  moreover have "[0, (1 - \<i>) / 2, 0, (1 + \<i>) / 2] \<noteq> resize 4 [0, 1, 0]"
    by (simp add: resize_def complex_eq_iff)
  ultimately show ?thesis by blast
qed

text \<open>
  Claim C8 says that after a transform of length \<open>N\<close> the cache holds \<open>N / 2\<close> roots and
  that a second transform of the same length reuses it unchanged. Evaluated from the
  empty cache on two transforms of length 4: after the first call the cache has 4
  entries (the vector is resized to \<^verbatim>\<open>P.size()\<close>, and the test compares its size with
  \<^verbatim>\<open>P.size() / 2\<close>), so the second call of the same length fills it again, here with
  the roots of the other direction.
\<close>

theorem fft_cache_length_and_refill:
  "FFT [] [1, 0, 0, 0] 1 = Some ([1, \<i>, 0, 0], [1, 1, 1, 1])
   \<and> length [1, \<i>, 0, 0 :: complex] = 4
   \<and> FFT [1, \<i>, 0, 0] [1, 1, 1, 1] (- 1) = Some ([1, - \<i>, 0, 0], [1, 0, 0, 0])
   \<and> [1, - \<i>, 0, 0] \<noteq> [1, \<i>, 0, 0]"
proof -
  have e1: "update_roots (real_of_int (1 * 2) * pi / 4) 4 [] = [1, \<i>, 0, 0]"
    by (simp add: update_roots_four complex_eq_iff)
  have e2: "update_roots (real_of_int (- 1 * 2) * pi / 4) 4 [1, \<i>, 0, 0] = [1, - \<i>, 0, 0]"
    by (simp add: update_roots_four complex_eq_iff)
  have "FFT [] [1, 0, 0, 0] 1 = Some ([1, \<i>, 0, 0], [1, 1, 1, 1])"
    by (simp only: FFT_four e1 butterfly_i_four) (simp add: scale_inverse_def)
  moreover have "FFT [1, \<i>, 0, 0] [1, 1, 1, 1] (- 1) = Some ([1, - \<i>, 0, 0], [1, 0, 0, 0])"
    by (simp only: FFT_four e2 butterfly_i_four) (simp add: scale_inverse_def)
  moreover have "[1, - \<i>, 0, 0] \<noteq> [1, \<i>, 0, 0]"
    by (simp add: complex_eq_iff)
  ultimately show ?thesis by simp
qed

text \<open>
  Claim C9. From every cache the program can hold, the forward transform of
  \<open>[1, 0, 0, 0]\<close> returns with the buffer \<open>[1, 1, 1, 1]\<close>, and the inverse transform of
  \<open>[1, 1, 1, 1]\<close> returns with the buffer \<open>[1, 0, 0, 0]\<close>; the equalities are exact.
\<close>

theorem fft_impulse_and_back:
  assumes "cache_reachable roots"
  shows "(\<exists>roots1. FFT roots [1, 0, 0, 0] 1 = Some (roots1, [1, 1, 1, 1]))
       \<and> (\<exists>roots1. FFT roots [1, 1, 1, 1] (- 1) = Some (roots1, [1, 0, 0, 0]))"
proof -
  obtain r1 rs where f: "update_roots (real_of_int (1 * 2) * pi / 4) 4 roots = 1 # r1 # rs"
    using roots_shape[OF assms] by blast
  obtain q1 qs where b: "update_roots (real_of_int (- 1 * 2) * pi / 4) 4 roots = 1 # q1 # qs"
    using roots_shape[OF assms] by blast
  have "FFT roots [1, 0, 0, 0] 1 = Some (1 # r1 # rs, [1, 1, 1, 1])"
    by (simp only: FFT_four f butterfly_i_four) (simp add: scale_inverse_def)
  moreover have "FFT roots [1, 1, 1, 1] (- 1) = Some (1 # q1 # qs, [1, 0, 0, 0])"
    by (simp only: FFT_four b butterfly_i_four) (simp add: scale_inverse_def)
  ultimately show ?thesis by blast
qed

theorem fft_impulse_and_back_witness:
  "cache_reachable []
   \<and> FFT [] [1, 0, 0, 0] 1 = Some ([1, \<i>, 0, 0], [1, 1, 1, 1])
   \<and> (\<exists>roots1. FFT [1, \<i>, 0, 0] [1, 1, 1, 1] (- 1) = Some (roots1, [1, 0, 0, 0]))"
proof -
  have r: "cache_reachable []" by (rule cache_reachable.initial)
  have e: "update_roots (real_of_int (1 * 2) * pi / 4) 4 [] = [1, \<i>, 0, 0]"
    by (simp add: update_roots_four complex_eq_iff)
  from fft_impulse_and_back [OF r] obtain q
    where f: "FFT [] [1, 0, 0, 0] 1 = Some (q, [1, 1, 1, 1])" by blast
  then have q: "q = [1, \<i>, 0, 0]"
    by (simp only: FFT_four e butterfly_i_four) simp
  have "cache_reachable [1, \<i>, 0, 0]"
    using cache_reachable.call [OF r f] q by simp
  from fft_impulse_and_back [OF this] r f q show ?thesis by blast
qed

section \<open>Entries and dimensions through the loops of inverse and determinant\<close>

subsection \<open>Assignments and swaps\<close>

lemma length_put: "length (put m r k v) = length m"
  by (simp add: put_def)

lemma length_put_row: "r' < length m \<Longrightarrow> length (put m r k v ! r') = length (m ! r')"
  by (cases "r' = r") (simp_all add: put_def)

lemma rect_put: "rect n c (put m r k v) = rect n c m"
  by (auto simp: rect_def length_put length_put_row)

lemma elem_put:
  "rect n c m \<Longrightarrow> r < n \<Longrightarrow> k < c \<Longrightarrow>
   elem (put m r k v) r' k' = (if r' = r \<and> k' = k then v else elem m r' k')"
  by (auto simp: rect_def put_def elem_def nth_list_update)

lemma rect_swap_entries: "rect n c (swap_entries m i j k) = rect n c m"
  by (simp add: swap_entries_def rect_put)

lemma elem_swap_entries:
  "rect n c m \<Longrightarrow> i < n \<Longrightarrow> j < n \<Longrightarrow> k < c \<Longrightarrow>
   elem (swap_entries m i j k) r k' =
     (if k' = k then (if r = i then elem m j k else if r = j then elem m i k else elem m r k)
      else elem m r k')"
  by (auto simp: swap_entries_def elem_put rect_put)

lemma rect_det_swap: "rect n c (det_swap cols i j k m) = rect n c m"
proof (induction cols i j k m rule: det_swap.induct)
  case (1 cols i j k tmp)
  then show ?case
    by (subst det_swap.simps) (simp add: rect_swap_entries)
qed

lemma elem_det_swap:
  "rect n cols m \<Longrightarrow> i < n \<Longrightarrow> j < n \<Longrightarrow>
   elem (det_swap cols i j k m) r c =
     (if k \<le> c \<and> c < cols
      then (if r = i then elem m j c else if r = j then elem m i c else elem m r c)
      else elem m r c)"
proof (induction cols i j k m rule: det_swap.induct)
  case (1 cols i j k tmp)
  show ?case
  proof (cases "k < cols")
    case True
    have r: "rect n cols (swap_entries tmp i j k)"
      using "1.prems" by (simp add: rect_swap_entries)
    show ?thesis
      using True "1.prems"
      by (subst det_swap.simps) (auto simp: "1.IH" [OF True r] elem_swap_entries)
  next
    case False
    then show ?thesis by (subst det_swap.simps) auto
  qed
qed

lemma fst_inv_swap: "fst (inv_swap cols i j k (tmp, ret)) = det_swap cols i j k tmp"
proof (induction cols i j k "(tmp, ret)" arbitrary: tmp ret rule: inv_swap.induct)
  case (1 cols i j k tmp ret)
  show ?case
    by (subst inv_swap.simps, subst det_swap.simps) (simp add: "1.hyps")
qed

subsection \<open>The pivot search\<close>

lemma pivot_search_step:
  "j < n \<Longrightarrow> elem tmp j i = 0 \<Longrightarrow> pivot_search n tmp i j = pivot_search n tmp i (Suc j)"
  by (subst pivot_search.simps) simp

lemma pivot_search_stop:
  "\<not> (j < n \<and> elem tmp j i = 0) \<Longrightarrow> pivot_search n tmp i j = j"
  by (subst pivot_search.simps) auto

lemma pivot_search_cong:
  "(\<And>r. j \<le> r \<Longrightarrow> r < n \<Longrightarrow> elem t1 r i = elem t2 r i) \<Longrightarrow>
   pivot_search n t1 i j = pivot_search n t2 i j"
proof (induction n t1 i j rule: pivot_search.induct)
  case (1 n tmp i j)
  show ?case
  proof (cases "j < n \<and> elem tmp j i = 0")
    case True
    then have "elem t2 j i = 0" using "1.prems" [of j] by simp
    moreover have "pivot_search n tmp i (Suc j) = pivot_search n t2 i (Suc j)"
      using "1.IH" [OF True] "1.prems" by simp
    ultimately show ?thesis
      using True by (simp add: pivot_search_step)
  next
    case False
    then have "\<not> (j < n \<and> elem t2 j i = 0)" using "1.prems" [of j] by auto
    then show ?thesis
      using pivot_search_stop [OF False] pivot_search_stop [of j n t2 i] by simp
  qed
qed

lemma pivot_search_bounds: "j \<le> n \<Longrightarrow> j \<le> pivot_search n tmp i j \<and> pivot_search n tmp i j \<le> n"
proof (induction n tmp i j rule: pivot_search.induct)
  case (1 n tmp i j)
  show ?case
  proof (cases "j < n \<and> elem tmp j i = 0")
    case True
    with "1.IH" [OF True] show ?thesis by (simp add: pivot_search_step)
  next
    case False
    with "1.prems" show ?thesis using pivot_search_stop [OF False] by simp
  qed
qed

lemma pivot_search_nonzero:
  "pivot_search n tmp i j < n \<Longrightarrow> elem tmp (pivot_search n tmp i j) i \<noteq> 0"
proof (induction n tmp i j rule: pivot_search.induct)
  case (1 n tmp i j)
  show ?case
  proof (cases "j < n \<and> elem tmp j i = 0")
    case True
    then have e: "pivot_search n tmp i j = pivot_search n tmp i (Suc j)"
      by (simp add: pivot_search_step)
    with "1.IH" [OF True] "1.prems" show ?thesis by simp
  next
    case False
    then have e: "pivot_search n tmp i j = j"
      by (rule pivot_search_stop)
    with False "1.prems" show ?thesis by simp
  qed
qed

lemma pivot_search_all_zero:
  "j \<le> n \<Longrightarrow> (\<And>r. j \<le> r \<Longrightarrow> r < n \<Longrightarrow> elem tmp r i = 0) \<Longrightarrow> pivot_search n tmp i j = n"
proof (induction n tmp i j rule: pivot_search.induct)
  case (1 n tmp i j)
  show ?case
  proof (cases "j < n")
    case True
    then have z: "j < n \<and> elem tmp j i = 0" using "1.prems"(2) [of j] by simp
    then have "pivot_search n tmp i j = pivot_search n tmp i (Suc j)"
      by (simp add: pivot_search_step)
    also have "\<dots> = n" using "1.IH" [OF z] True "1.prems"(2) by simp
    finally show ?thesis .
  next
    case False
    with "1.prems"(1) show ?thesis by (simp add: pivot_search_stop)
  qed
qed

lemma pivot_search_column_zero:
  "j \<le> n \<Longrightarrow> pivot_search n tmp i j = n \<Longrightarrow> j \<le> r \<Longrightarrow> r < n \<Longrightarrow> elem tmp r i = 0"
proof (induction n tmp i j rule: pivot_search.induct)
  case (1 n tmp i j)
  show ?case
  proof (cases "j < n \<and> elem tmp j i = 0")
    case True
    then have e: "pivot_search n tmp i j = pivot_search n tmp i (Suc j)"
      by (simp add: pivot_search_step)
    show ?thesis
    proof (cases "r = j")
      case True
      with \<open>j < n \<and> elem tmp j i = 0\<close> show ?thesis by simp
    next
      case False
      with "1.IH" [OF True] "1.prems" e True show ?thesis by simp
    qed
  next
    case False
    then have e: "pivot_search n tmp i j = j"
      by (rule pivot_search_stop)
    with "1.prems" show ?thesis by simp
  qed
qed

subsection \<open>The normalisation of the pivot row\<close>

lemma inv_normalize_skip:
  "i < cols \<Longrightarrow> inv_normalize cols i i (tmp, ret) = inv_normalize cols i (Suc i) (tmp, ret)"
  by (subst inv_normalize.simps) simp

lemma inv_normalize_step:
  "j < cols \<Longrightarrow> j \<noteq> i \<Longrightarrow>
   inv_normalize cols i j (tmp, ret) =
     inv_normalize cols i (Suc j)
       (put tmp i j (elem tmp i j div elem tmp i i),
        put ret i j (elem ret i j div elem (put tmp i j (elem tmp i j div elem tmp i i)) i i))"
  by (subst inv_normalize.simps) simp

lemma inv_normalize_done: "\<not> j < cols \<Longrightarrow> inv_normalize cols i j (tmp, ret) = (tmp, ret)"
  by (subst inv_normalize.simps) simp

lemma rect_inv_normalize:
  "rect n c (fst (inv_normalize cols i j (tmp, ret))) = rect n c tmp"
proof (induction cols i j "(tmp, ret)" arbitrary: tmp ret rule: inv_normalize.induct)
  case (1 cols i j tmp ret)
  show ?case
  proof (cases "j < cols")
    case True
    show ?thesis
    proof (cases "j = i")
      case True
      with \<open>j < cols\<close> "1.hyps"(1) show ?thesis by (simp add: inv_normalize_skip)
    next
      case False
      with \<open>j < cols\<close> "1.hyps"(2) show ?thesis by (simp add: inv_normalize_step rect_put)
    qed
  next
    case False
    then show ?thesis by (simp add: inv_normalize_done)
  qed
qed

lemma elem_inv_normalize:
  "rect n cols tmp \<Longrightarrow> i < n \<Longrightarrow>
   elem (fst (inv_normalize cols i j (tmp, ret))) r c =
     (if r = i \<and> j \<le> c \<and> c < cols \<and> c \<noteq> i then elem tmp i c div elem tmp i i
      else elem tmp r c)"
proof (induction "cols - j" arbitrary: j tmp ret)
  case 0
  then show ?case by (auto simp: inv_normalize_done)
next
  case (Suc d)
  then have lt: "j < cols" and d: "d = cols - Suc j" by auto
  note IH = Suc.hyps(1) [OF d]
  show ?case
  proof (cases "j = i")
    case True
    with lt Suc.prems show ?thesis by (auto simp: inv_normalize_skip IH [unfolded True])
  next
    case False
    with lt Suc.prems show ?thesis
      by (auto simp: inv_normalize_step IH rect_put elem_put)
  qed
qed

subsection \<open>The elimination loops of inverse\<close>

lemma inv_elim_cols_step:
  "k < cols \<Longrightarrow>
   inv_elim_cols cols i j entry k (tmp, ret) =
     inv_elim_cols cols i j entry (Suc k)
             (put tmp j k (elem tmp j k - (elem tmp i k div elem tmp i i) * entry),
              put ret j k (elem ret j k -
                (elem ret i k div
                   elem (put tmp j k (elem tmp j k - (elem tmp i k div elem tmp i i) * entry)) i i)
                * entry))"
  by (subst inv_elim_cols.simps) simp

lemma inv_elim_cols_done:
  "\<not> k < cols \<Longrightarrow> inv_elim_cols cols i j entry k (tmp, ret) = (tmp, ret)"
  by (subst inv_elim_cols.simps) simp

lemma rect_inv_elim_cols:
  "rect n c (fst (inv_elim_cols cols i j entry k (tmp, ret))) = rect n c tmp"
proof (induction cols i j entry k "(tmp, ret)" arbitrary: tmp ret rule: inv_elim_cols.induct)
  case (1 cols i j entry k tmp ret)
  show ?case
  proof (cases "k < cols")
    case True
    with "1.hyps" show ?thesis by (simp add: inv_elim_cols_step rect_put)
  next
    case False
    then show ?thesis by (simp add: inv_elim_cols_done)
  qed
qed

lemma elem_inv_elim_cols:
  "rect n cols tmp \<Longrightarrow> j < n \<Longrightarrow> j \<noteq> i \<Longrightarrow>
   elem (fst (inv_elim_cols cols i j entry k (tmp, ret))) r c =
     (if r = j \<and> k \<le> c \<and> c < cols
      then elem tmp j c - (elem tmp i c div elem tmp i i) * entry
      else elem tmp r c)"
proof (induction "cols - k" arbitrary: k tmp ret)
  case 0
  then show ?case by (auto simp: inv_elim_cols_done)
next
  case (Suc d)
  then have lt: "k < cols" and d: "d = cols - Suc k" by auto
  note IH = Suc.hyps(1) [OF d]
  from lt Suc.prems show ?case
    by (auto simp: inv_elim_cols_step IH rect_put elem_put)
qed

lemma inv_elim_rows_skip:
  "i < n \<Longrightarrow> inv_elim_rows n cols i i (tmp, ret) = inv_elim_rows n cols i (Suc i) (tmp, ret)"
  by (subst inv_elim_rows.simps) simp

lemma inv_elim_rows_step:
  "j < n \<Longrightarrow> j \<noteq> i \<Longrightarrow>
   inv_elim_rows n cols i j (tmp, ret) =
     inv_elim_rows n cols i (Suc j) (inv_elim_cols cols i j (elem tmp j i) 0 (tmp, ret))"
  by (subst inv_elim_rows.simps) simp

lemma inv_elim_rows_done: "\<not> j < n \<Longrightarrow> inv_elim_rows n cols i j (tmp, ret) = (tmp, ret)"
  by (subst inv_elim_rows.simps) simp

lemma rect_inv_elim_rows:
  "rect n c (fst (inv_elim_rows n' cols i j (tmp, ret))) = rect n c tmp"
proof (induction "n' - j" arbitrary: j tmp ret)
  case 0
  then show ?case by (simp add: inv_elim_rows_done)
next
  case (Suc d)
  then have lt: "j < n'" and d: "d = n' - Suc j" by auto
  note IH = Suc.hyps(1) [OF d]
  show ?case
  proof (cases "j = i")
    case True
    with lt show ?thesis by (simp add: inv_elim_rows_skip IH [unfolded True])
  next
    case False
    obtain t1 r1 where e: "inv_elim_cols cols i j (elem tmp j i) 0 (tmp, ret) = (t1, r1)"
      by (cases "inv_elim_cols cols i j (elem tmp j i) 0 (tmp, ret)")
    have "rect n c t1 = rect n c tmp"
      using rect_inv_elim_cols [of n c cols i j "elem tmp j i" 0 tmp ret] e by simp
    with lt False show ?thesis
      by (simp add: inv_elim_rows_step e IH)
  qed
qed

lemma elem_inv_elim_rows:
  "rect n cols tmp \<Longrightarrow> i < n \<Longrightarrow> i < cols \<Longrightarrow> c < cols \<Longrightarrow>
   elem (fst (inv_elim_rows n cols i j (tmp, ret))) r c =
     (if j \<le> r \<and> r < n \<and> r \<noteq> i
      then elem tmp r c - (elem tmp i c div elem tmp i i) * elem tmp r i
      else elem tmp r c)"
proof (induction "n - j" arbitrary: j tmp ret)
  case 0
  then show ?case by (auto simp: inv_elim_rows_done)
next
  case (Suc d)
  then have lt: "j < n" and d: "d = n - Suc j" by auto
  note IH = Suc.hyps(1) [OF d]
  show ?case
  proof (cases "j = i")
    case True
    with lt Suc.prems show ?thesis by (auto simp: inv_elim_rows_skip IH [unfolded True])
  next
    case False
    obtain t1 r1 where e: "inv_elim_cols cols i j (elem tmp j i) 0 (tmp, ret) = (t1, r1)"
      by (cases "inv_elim_cols cols i j (elem tmp j i) 0 (tmp, ret)")
    have t1: "t1 = fst (inv_elim_cols cols i j (elem tmp j i) 0 (tmp, ret))"
      using e by simp
    have r: "rect n cols t1"
      using Suc.prems(1) by (simp add: t1 rect_inv_elim_cols)
    have el: "elem t1 r' c' =
        (if r' = j \<and> c' < cols then elem tmp j c' - (elem tmp i c' div elem tmp i i) * elem tmp j i
         else elem tmp r' c')" for r' c'
      unfolding t1 using elem_inv_elim_cols [OF Suc.prems(1) lt False] by simp
    have "elem (fst (inv_elim_rows n cols i (Suc j) (t1, r1))) r c =
        (if Suc j \<le> r \<and> r < n \<and> r \<noteq> i
         then elem t1 r c - (elem t1 i c div elem t1 i i) * elem t1 r i
         else elem t1 r c)"
      using IH [OF r Suc.prems(2,3,4)] .
    then show ?thesis
      using lt False Suc.prems by (auto simp: inv_elim_rows_step e el)
  qed
qed

subsection \<open>The elimination loops of determinant\<close>

lemma det_elim_cols_step:
  "k < cols \<Longrightarrow>
   det_elim_cols cols i j entry k tmp =
     det_elim_cols cols i j entry (Suc k)
       (put tmp j k (elem tmp j k - (elem tmp i k div elem tmp i i) * entry))"
  by (subst det_elim_cols.simps) simp

lemma det_elim_cols_done: "\<not> k < cols \<Longrightarrow> det_elim_cols cols i j entry k tmp = tmp"
  by (subst det_elim_cols.simps) simp

lemma rect_det_elim_cols: "rect n c (det_elim_cols cols i j entry k tmp) = rect n c tmp"
proof (induction "cols - k" arbitrary: k tmp)
  case 0
  then show ?case by (simp add: det_elim_cols_done)
next
  case (Suc d)
  then have lt: "k < cols" and d: "d = cols - Suc k" by auto
  from lt show ?case by (simp add: det_elim_cols_step Suc.hyps(1) [OF d] rect_put)
qed

lemma elem_det_elim_cols:
  "rect n cols tmp \<Longrightarrow> j < n \<Longrightarrow> j \<noteq> i \<Longrightarrow>
   elem (det_elim_cols cols i j entry k tmp) r c =
     (if r = j \<and> k \<le> c \<and> c < cols
      then elem tmp j c - (elem tmp i c div elem tmp i i) * entry
      else elem tmp r c)"
proof (induction "cols - k" arbitrary: k tmp)
  case 0
  then show ?case by (auto simp: det_elim_cols_done)
next
  case (Suc d)
  then have lt: "k < cols" and d: "d = cols - Suc k" by auto
  note IH = Suc.hyps(1) [OF d]
  from lt Suc.prems show ?case
    by (auto simp: det_elim_cols_step IH rect_put elem_put)
qed

lemma det_elim_rows_step:
  "j < n \<Longrightarrow>
   det_elim_rows n cols i j tmp =
     det_elim_rows n cols i (Suc j) (det_elim_cols cols i j (elem tmp j i) i tmp)"
  by (subst det_elim_rows.simps) simp

lemma det_elim_rows_done: "\<not> j < n \<Longrightarrow> det_elim_rows n cols i j tmp = tmp"
  by (subst det_elim_rows.simps) simp

lemma rect_det_elim_rows: "rect n c (det_elim_rows n' cols i j tmp) = rect n c tmp"
proof (induction "n' - j" arbitrary: j tmp)
  case 0
  then show ?case by (simp add: det_elim_rows_done)
next
  case (Suc d)
  then have lt: "j < n'" and d: "d = n' - Suc j" by auto
  from lt show ?case
    by (simp add: det_elim_rows_step Suc.hyps(1) [OF d] rect_det_elim_cols)
qed

lemma elem_det_elim_rows:
  "rect n cols tmp \<Longrightarrow> i < j \<Longrightarrow>
   elem (det_elim_rows n cols i j tmp) r c =
     (if j \<le> r \<and> r < n \<and> i \<le> c \<and> c < cols
      then elem tmp r c - (elem tmp i c div elem tmp i i) * elem tmp r i
      else elem tmp r c)"
proof (induction "n - j" arbitrary: j tmp)
  case 0
  then show ?case by (auto simp: det_elim_rows_done)
next
  case (Suc d)
  then have lt: "j < n" and d: "d = n - Suc j" and ne: "j \<noteq> i" by auto
  define t1 where "t1 = det_elim_cols cols i j (elem tmp j i) i tmp"
  have r: "rect n cols t1"
    using Suc.prems(1) by (simp add: t1_def rect_det_elim_cols)
  have el: "elem t1 r' c' =
      (if r' = j \<and> i \<le> c' \<and> c' < cols
       then elem tmp j c' - (elem tmp i c' div elem tmp i i) * elem tmp j i
       else elem tmp r' c')" for r' c'
    unfolding t1_def using elem_det_elim_cols [OF Suc.prems(1) lt ne] by simp
  have "elem (det_elim_rows n cols i (Suc j) t1) r c =
      (if Suc j \<le> r \<and> r < n \<and> i \<le> c \<and> c < cols
       then elem t1 r c - (elem t1 i c div elem t1 i i) * elem t1 r i
       else elem t1 r c)"
    using Suc.hyps(1) [OF d r] Suc.prems(2) by simp
  moreover have "det_elim_rows n cols i j tmp = det_elim_rows n cols i (Suc j) t1"
    using lt by (simp add: det_elim_rows_step t1_def)
  ultimately show ?case
    using lt ne Suc.prems by (auto simp: el)
qed

subsection \<open>The product of the diagonal\<close>

lemma diag_product_step:
  "i < n \<Longrightarrow> diag_product n i tmp res = diag_product n (Suc i) tmp (res * elem tmp i i)"
  by (subst diag_product.simps) simp

lemma diag_product_done: "\<not> i < n \<Longrightarrow> diag_product n i tmp res = res"
  by (subst diag_product.simps) simp

text \<open>The last factor of the product is the last entry of the diagonal.\<close>

lemma diag_product_last:
  "i \<le> k \<Longrightarrow> diag_product (Suc k) i tmp res = diag_product k i tmp res * elem tmp k k"
proof (induction "k - i" arbitrary: i res)
  case 0
  then have "k = i" by simp
  then show ?case
    by (simp add: diag_product_step [of i "Suc i"] diag_product_done)
next
  case (Suc d)
  then have lt: "i < k" and d: "d = k - Suc i" by auto
  from lt have "diag_product (Suc k) i tmp res = diag_product (Suc k) (Suc i) tmp (res * elem tmp i i)"
    by (simp add: diag_product_step)
  also have "\<dots> = diag_product k (Suc i) tmp (res * elem tmp i i) * elem tmp k k"
    using Suc.hyps(1) [OF d] lt by simp
  also have "diag_product k (Suc i) tmp (res * elem tmp i i) = diag_product k i tmp res"
    using lt by (simp add: diag_product_step)
  finally show ?case .
qed

subsection \<open>One iteration of each main loop\<close>

lemma rect_swapped: "rect n c (swapped n' i j tmp) = rect n c tmp"
  by (simp add: swapped_def rect_det_swap)

lemma elem_swapped:
  "rect n n tmp \<Longrightarrow> i < n \<Longrightarrow> j < n \<Longrightarrow> i \<le> c \<Longrightarrow> c < n \<Longrightarrow>
   elem (swapped n i j tmp) r c =
     (if r = i then elem tmp j c else if r = j then elem tmp i c else elem tmp r c)"
  by (auto simp: swapped_def elem_det_swap)

lemma agree_swapped:
  assumes "agree i n a b" "rect n n a" "rect n n b" "i < n" "i \<le> j" "j < n"
  shows "agree i n (swapped n i j a) (swapped n i j b)"
  using assms unfolding agree_def by (auto simp: elem_swapped)

lemma fst_swap_branch:
  "fst (if i \<noteq> j then inv_swap n i j i s else s) = swapped n i j (fst s)"
  by (cases s) (simp add: swapped_def fst_inv_swap)

lemma fst_inv_scale_pivot: "fst (inv_scale_pivot i s) = put (fst s) i i 1"
  by (cases s) (simp add: inv_scale_pivot_def)

lemma inverse_body_degenerate:
  "pivot_search n (fst s) i i = n \<Longrightarrow> inverse_body n cols i s = Inl DegenerateMatrix"
  by (simp add: inverse_body_def)

lemma inverse_body_tmp:
  assumes piv: "pivot_search n (fst s) i i = j" and jn: "j < n"
  shows "\<exists>s1. inverse_body n n i s = Inr s1
          \<and> fst s1 = fst (inv_elim_rows n n i 0
                 (inv_scale_pivot i (inv_normalize n i 0 (if i \<noteq> j then inv_swap n i j i s else s))))"
  using assms by (simp add: inverse_body_def Let_def)

lemma inverse_body_effect:
  fixes s :: "'a::{zero,one,plus,minus,uminus,times,divide} matrix \<times> 'a matrix"
  assumes rect: "rect n n (fst s)" and i: "i < n"
    and piv: "pivot_search n (fst s) i i = j" and jn: "j < n"
    and body: "inverse_body n n i s = Inr s1"
    and quot_one: "\<And>x p :: 'a. (x div p) div 1 = x div p"
  shows "rect n n (fst s1)"
    and "\<And>r c. i < r \<Longrightarrow> r < n \<Longrightarrow> i < c \<Longrightarrow> c < n \<Longrightarrow>
          elem (fst s1) r c =
            elem (swapped n i j (fst s)) r c
            - (elem (swapped n i j (fst s)) i c div elem (swapped n i j (fst s)) i i)
              * elem (swapped n i j (fst s)) r i"
proof -
  define s2 where "s2 = (if i \<noteq> j then inv_swap n i j i s else s)"
  define s3 where "s3 = inv_normalize n i 0 s2"
  define s4 where "s4 = inv_scale_pivot i s3"
  have f1: "fst s1 = fst (inv_elim_rows n n i 0 s4)"
    using inverse_body_tmp [OF piv jn] body by (simp add: s2_def s3_def s4_def)
  have t2: "fst s2 = swapped n i j (fst s)"
    by (simp add: s2_def fst_swap_branch)
  have r2: "rect n n (fst s2)" using rect by (simp add: t2 rect_swapped)
  have r3: "rect n n (fst s3)"
    using r2 rect_inv_normalize [of n n n i 0 "fst s2" "snd s2"] by (simp add: s3_def)
  have e3: "elem (fst s3) r c =
      (if r = i \<and> c < n \<and> c \<noteq> i then elem (fst s2) i c div elem (fst s2) i i
       else elem (fst s2) r c)" for r c
    using elem_inv_normalize [OF r2 i, of 0 "snd s2" r c] by (simp add: s3_def)
  have t4: "fst s4 = put (fst s3) i i 1" by (simp add: s4_def fst_inv_scale_pivot)
  have r4: "rect n n (fst s4)" using r3 by (simp add: t4 rect_put)
  have e4: "elem (fst s4) r c = (if r = i \<and> c = i then 1 else elem (fst s3) r c)" for r c
    unfolding t4 using elem_put [OF r3 i i] by simp
  show "rect n n (fst s1)"
    using r4 rect_inv_elim_rows [of n n n n i 0 "fst s4" "snd s4"] by (simp add: f1)
  fix r c assume rc: "i < r" "r < n" "i < c" "c < n"
  have "elem (fst s1) r c =
      elem (fst s4) r c - (elem (fst s4) i c div elem (fst s4) i i) * elem (fst s4) r i"
    using elem_inv_elim_rows [OF r4 i i rc(4), of 0 "snd s4" r] rc by (simp add: f1)
  also have "\<dots> = elem (fst s2) r c - (elem (fst s2) i c div elem (fst s2) i i) * elem (fst s2) r i"
    using rc by (simp add: e4 e3 quot_one)
  finally show "elem (fst s1) r c =
            elem (swapped n i j (fst s)) r c
            - (elem (swapped n i j (fst s)) i c div elem (swapped n i j (fst s)) i i)
              * elem (swapped n i j (fst s)) r i"
    by (simp add: t2)
qed

lemma det_step_effect:
  assumes rect: "rect n n tD" and i: "i < n"
  shows "rect n n (det_elim_rows n n i (Suc i) (swapped n i j tD))"
    and "\<And>r c. i < r \<Longrightarrow> r < n \<Longrightarrow> i < c \<Longrightarrow> c < n \<Longrightarrow>
          elem (det_elim_rows n n i (Suc i) (swapped n i j tD)) r c =
            elem (swapped n i j tD) r c
            - (elem (swapped n i j tD) i c div elem (swapped n i j tD) i i)
              * elem (swapped n i j tD) r i"
proof -
  have r2: "rect n n (swapped n i j tD)" using rect by (simp add: rect_swapped)
  show "rect n n (det_elim_rows n n i (Suc i) (swapped n i j tD))"
    using r2 by (simp add: rect_det_elim_rows)
  fix r c assume rc: "i < r" "r < n" "i < c" "c < n"
  then show "elem (det_elim_rows n n i (Suc i) (swapped n i j tD)) r c =
            elem (swapped n i j tD) r c
            - (elem (swapped n i j tD) i c div elem (swapped n i j tD) i i)
              * elem (swapped n i j tD) r i"
    using elem_det_elim_rows [OF r2, of i "Suc i" r c] by simp
qed

lemma agree_step:
  fixes s :: "'a::{zero,one,plus,minus,uminus,times,divide} matrix \<times> 'a matrix"
  assumes ag: "agree i n (fst s) tD" and rI: "rect n n (fst s)" and rD: "rect n n tD"
    and i: "i < n" and piv: "pivot_search n (fst s) i i = j" and jn: "j < n"
    and body: "inverse_body n n i s = Inr s1"
    and quot_one: "\<And>x p :: 'a. (x div p) div 1 = x div p"
  shows "agree (Suc i) n (fst s1) (det_elim_rows n n i (Suc i) (swapped n i j tD))"
proof -
  have ij: "i \<le> j" using pivot_search_bounds [of i n "fst s" i] i piv by simp
  have sw: "agree i n (swapped n i j (fst s)) (swapped n i j tD)"
    using agree_swapped [OF ag rI rD i ij jn] .
  show ?thesis
    unfolding agree_def
  proof (intro allI impI)
    fix r c assume "Suc i \<le> r \<and> r < n \<and> Suc i \<le> c \<and> c < n"
    then have rc: "i < r" "r < n" "i < c" "c < n" by auto
    have "elem (swapped n i j (fst s)) r' c' = elem (swapped n i j tD) r' c'"
      if "i \<le> r'" "r' < n" "i \<le> c'" "c' < n" for r' c'
      using sw that unfolding agree_def by blast
    then show "elem (fst s1) r c = elem (det_elim_rows n n i (Suc i) (swapped n i j tD)) r c"
      using rc i
      by (simp add: inverse_body_effect(2) [OF rI i piv jn body quot_one rc]
          det_step_effect(2) [OF rD i rc])
  qed
qed

subsection \<open>The two main loops side by side\<close>

text \<open>
  Both methods search the same column for the same pivot and subtract the same
  multiples of the pivot row from the rows below it, so at the head of iteration \<open>i\<close>
  their working copies have the same entries in rows and columns \<open>i, \<dots>, n - 1\<close>. The one
  law of arithmetic this needs is that dividing a quotient by 1 changes nothing:
  \<^verbatim>\<open>inverse\<close> divides the pivot row by the pivot and later by \<^verbatim>\<open>tmp(i,i)\<close>, which is 1 by
  then. When \<^verbatim>\<open>inverse\<close> throws in column \<open>i\<close>, \<^verbatim>\<open>determinant\<close> either takes its early return in
  the same iteration, or, for the last column, has left its loop with a zero as the last
  entry of the diagonal.
\<close>

lemma inverse_loop_step:
  "i < n \<Longrightarrow> inverse_loop n cols i s =
     (case inverse_body n cols i s of Inl e \<Rightarrow> Inl e | Inr s1 \<Rightarrow> inverse_loop n cols (Suc i) s1)"
  by (subst inverse_loop.simps) simp

lemma inverse_loop_done: "\<not> i < n \<Longrightarrow> inverse_loop n cols i s = Inr (snd s)"
  by (subst inverse_loop.simps) simp

lemma det_loop_step:
  "i < bound \<Longrightarrow> det_loop bound n cols i tmp b =
     (if pivot_search n tmp i i = n then 0
      else det_loop bound n cols (Suc i)
             (det_elim_rows n cols i (Suc i) (swapped cols i (pivot_search n tmp i i) tmp))
             (if i \<noteq> pivot_search n tmp i i then \<not> b else b))"
  by (subst det_loop.simps) (simp add: Let_def swapped_def)

lemma det_loop_done:
  "\<not> i < bound \<Longrightarrow> det_loop bound n cols i tmp b =
     (if b then - diag_product n 0 tmp 1 else diag_product n 0 tmp 1)"
  by (subst det_loop.simps) (simp add: Let_def)

lemma rows_rect: "rect n c m \<Longrightarrow> rows m = n"
  by (auto simp: rect_def rows_def)

lemma columns_rect: "rect n n m \<Longrightarrow> columns m = n"
  by (cases "m = []") (auto simp: rect_def columns_def)

lemma matrix_copy_rect:
  assumes "rect n n m"
  shows "matrix_copy m = m"
proof -
  have len: "length m = n" and row: "\<And>i. i < n \<Longrightarrow> length (m ! i) = n"
    using assms by (simp_all add: rect_def)
  have "map (\<lambda>j. m ! i ! j) [0..<n] = m ! i" if "i < n" for i
    using map_nth [of "m ! i"] row [OF that] by simp
  then have "map (\<lambda>i. map (\<lambda>j. m ! i ! j) [0..<n]) [0..<n] = map (\<lambda>i. m ! i) [0..<n]"
    by (intro map_cong) simp_all
  also have "\<dots> = m" using map_nth [of m] len by simp
  finally show ?thesis
    by (simp add: matrix_copy_def elem_def rows_rect [OF assms] columns_rect [OF assms])
qed

lemma agree_refl: "agree i n a a"
  by (simp add: agree_def)

lemma inverse_reaches_loop:
  assumes "inverse_reaches m i s"
  shows "i \<le> rows m \<and>
         inverse_loop (rows m) (columns m) i s
         = inverse_loop (rows m) (columns m) 0 (matrix_copy m, identity (rows m))"
  using assms
proof (induction rule: inverse_reaches.induct)
  case start
  then show ?case by simp
next
  case (step i s s1)
  then show ?case by (simp add: inverse_loop_step)
qed

lemma size_sub_one:
  assumes "0 < n" and "n < 2 ^ 64"
  shows "size_sub n 1 = n - 1"
proof -
  have "(2 :: nat) ^ 64 + n - 1 = 2 ^ 64 + (n - 1)" using assms(1) by simp
  moreover have "(2 ^ 64 + (n - 1)) mod 2 ^ 64 = (n - 1) mod (2 :: nat) ^ 64"
    by (rule mod_add_self1)
  moreover have "(n - 1) mod (2 :: nat) ^ 64 = n - 1" using assms(2) by (intro mod_less) simp
  ultimately show ?thesis unfolding size_sub_def by presburger
qed

lemma inverse_body_pivot:
  assumes "inverse_body n cols i s = Inr s1"
  shows "pivot_search n (fst s) i i \<noteq> n"
  using assms by (auto simp: inverse_body_def Let_def split: if_splits)

lemma determinant_follows_inverse:
  fixes m :: "'a::{zero,one,plus,minus,uminus,times,divide} matrix"
  assumes sq: "rect n n m"
    and quot_one: "\<And>x p :: 'a. (x div p) div 1 = x div p"
    and reach: "inverse_reaches m i s"
  shows "i < n \<longrightarrow>
         rect n n (fst s) \<and>
         (\<exists>tD b. rect n n tD \<and> agree i n (fst s) tD
            \<and> det_loop (n - 1) n n 0 m False = det_loop (n - 1) n n i tD b)"
  using reach
proof (induction rule: inverse_reaches.induct)
  case start
  have "matrix_copy m = m" using sq by (rule matrix_copy_rect)
  with sq agree_refl [of 0 n m] show ?case by auto
next
  case (step i s s1)
  have rows: "rows m = n" and cols: "columns m = n"
    using sq by (simp_all add: rows_rect columns_rect)
  from step.hyps(2) have i: "i < n" by (simp add: rows)
  from step.IH i obtain tD b where rI: "rect n n (fst s)" and rD: "rect n n tD"
    and ag: "agree i n (fst s) tD"
    and det: "det_loop (n - 1) n n 0 m False = det_loop (n - 1) n n i tD b"
    by blast
  have body: "inverse_body n n i s = Inr s1" using step.hyps(3) by (simp add: rows cols)
  define j where "j = pivot_search n (fst s) i i"
  have "j \<le> n" unfolding j_def using pivot_search_bounds [of i n "fst s" i] i by simp
  moreover have "j \<noteq> n" unfolding j_def using inverse_body_pivot [OF body] .
  ultimately have jn: "j < n" by simp
  have col: "elem (fst s) r i = elem tD r i" if "i \<le> r" "r < n" for r
    using ag that i unfolding agree_def by simp
  have jD: "pivot_search n tD i i = j"
    unfolding j_def using pivot_search_cong [of i n tD i "fst s"] col by simp
  show ?case
  proof (intro impI conjI)
    assume si: "Suc i < n"
    show "rect n n (fst s1)"
      using inverse_body_effect(1) [OF rI i j_def [symmetric] jn body quot_one] .
    let ?tD = "det_elim_rows n n i (Suc i) (swapped n i j tD)"
    let ?b = "if i \<noteq> j then \<not> b else b"
    have "rect n n ?tD" using det_step_effect(1) [OF rD i] .
    moreover have "agree (Suc i) n (fst s1) ?tD"
      using agree_step [OF ag rI rD i j_def [symmetric] jn body quot_one] .
    moreover have "det_loop (n - 1) n n i tD b = det_loop (n - 1) n n (Suc i) ?tD ?b"
      using si jD jn by (simp add: det_loop_step)
    ultimately show "\<exists>tD b. rect n n tD \<and> agree (Suc i) n (fst s1) tD
            \<and> det_loop (n - 1) n n 0 m False = det_loop (n - 1) n n (Suc i) tD b"
      using det by auto
  qed
qed

lemma missing_pivot_outcome:
  fixes m :: "'a::{zero,one,plus,minus,uminus,times,divide} matrix"
  assumes sq: "rect n n m" and size: "n < 2 ^ 64"
    and quot_one: "\<And>x p :: 'a. (x div p) div 1 = x div p"
    and missing: "missing_pivot_at m i"
  shows "inverse_mat m = Inl DegenerateMatrix"
    and "Suc i < n \<Longrightarrow> determinant m = Inr 0"
    and "Suc i = n \<Longrightarrow> \<exists>P. determinant m = Inr (P * 0) \<or> determinant m = Inr (- (P * 0))"
    and "i < n"
proof -
  have rows: "rows m = n" and cols: "columns m = n"
    using sq by (simp_all add: rows_rect columns_rect)
  have copy: "matrix_copy m = m" using sq by (rule matrix_copy_rect)
  from missing obtain tmp ret
    where reach: "inverse_reaches m i (tmp, ret)" and i: "i < n"
      and zero: "\<And>j. i \<le> j \<Longrightarrow> j < n \<Longrightarrow> elem tmp j i = 0"
    unfolding missing_pivot_at_def rows by blast
  show "i < n" by (rule i)
  have "pivot_search n tmp i i = n"
    using pivot_search_all_zero [of i n tmp i] i zero by simp
  then have "inverse_body n n i (tmp, ret) = Inl DegenerateMatrix"
    using inverse_body_degenerate [of n "(tmp, ret)" i n] by simp
  then have "inverse_loop n n i (tmp, ret) = Inl DegenerateMatrix"
    using i by (simp add: inverse_loop_step)
  then have "inverse_loop n n 0 (m, identity n) = Inl DegenerateMatrix"
    using inverse_reaches_loop [OF reach] by (simp add: rows cols copy)
  then show "inverse_mat m = Inl DegenerateMatrix"
    by (simp add: inverse_mat_def rows cols copy)
  from determinant_follows_inverse [OF sq quot_one reach] i obtain tD b
    where rD: "rect n n tD" and ag: "agree i n tmp tD"
      and det: "det_loop (n - 1) n n 0 m False = det_loop (n - 1) n n i tD b"
    by auto
  have colD: "elem tD r i = 0" if "i \<le> r" "r < n" for r
    using ag zero [OF that] that i unfolding agree_def by simp
  have sub: "size_sub n 1 = n - 1" by (rule size_sub_one) (use i size in auto)
  have "determinant m = Inr (det_loop (size_sub n 1) n n 0 m False)"
    by (simp add: determinant_def rows cols copy)
  then have d: "determinant m = Inr (det_loop (n - 1) n n i tD b)"
    unfolding sub det .
  show "determinant m = Inr 0" if "Suc i < n"
  proof -
    have "pivot_search n tD i i = n"
      using pivot_search_all_zero [of i n tD i] i colD by simp
    with that show ?thesis by (simp add: d det_loop_step)
  qed
  show "\<exists>P. determinant m = Inr (P * 0) \<or> determinant m = Inr (- (P * 0))" if "Suc i = n"
  proof -
    have "diag_product n 0 tD 1 = diag_product i 0 tD 1 * elem tD i i"
      using diag_product_last [of 0 i tD 1] that by simp
    then have "diag_product n 0 tD 1 = diag_product i 0 tD 1 * 0"
      using colD [of i] i by simp
    moreover have "det_loop (n - 1) n n i tD b
        = (if b then - diag_product n 0 tD 1 else diag_product n 0 tD 1)"
      using that by (simp add: det_loop_done)
    ultimately show ?thesis by (cases b) (auto simp: d)
  qed
qed

lemma identity_loop_step:
  "i < N \<Longrightarrow> identity_loop N i ret = identity_loop N (Suc i) (put ret i i 1)"
  by (subst identity_loop.simps) simp

lemma identity_loop_done: "\<not> i < N \<Longrightarrow> identity_loop N i ret = ret"
  by (subst identity_loop.simps) simp

section \<open>Rounding in \<^verbatim>\<open>long double\<close>\<close>

text \<open>
  Facts about the rounding of \<^verbatim>\<open>long double\<close>: the binary exponent is what its name says,
  rounding a number that is already on the grid changes nothing, and a power of two
  within the exponent range is a number of the format.
\<close>

subsection \<open>Powers of two\<close>

lemma pow2_pos: "0 < pow2 k"
  by (simp add: pow2_def)


lemma pow2_add: "pow2 (a + b) = pow2 a * pow2 b"
  by (simp add: pow2_def power_int_add)


lemma pow2_nat: "0 \<le> k \<Longrightarrow> pow2 k = 2 ^ nat k"
  by (simp add: pow2_def power_int_def)

lemma pow2_strict_mono: "a < b \<Longrightarrow> pow2 a < pow2 b"
  by (simp add: pow2_def power_int_strict_increasing)

lemma pow2_mono: "a \<le> b \<Longrightarrow> pow2 a \<le> pow2 b"
  by (simp add: pow2_def power_int_increasing)

lemma pow2_less_cancel: "pow2 a < pow2 b \<Longrightarrow> a < b"
  using pow2_mono [of b a] by (cases "a < b") auto

lemma pow2_le_cancel: "pow2 a \<le> pow2 b \<Longrightarrow> a \<le> b"
  using pow2_strict_mono [of b a] by (cases "a \<le> b") auto


subsection \<open>The binary exponent\<close>

lemma of_int_bitlen_bounds:
  assumes "0 < a"
  shows "pow2 (bitlen a - 1) \<le> of_int a" and "of_int a < pow2 (bitlen a)"
proof -
  from assms have b1: "1 \<le> bitlen a"
    using bitlen_eq_zero_iff [of a] bitlen_nonneg [of a] by (cases "bitlen a = 0") auto
  from bitlen_bounds [OF assms]
  have lo: "2 ^ nat (bitlen a - 1) \<le> a" and hi: "a < 2 ^ nat (bitlen a)" by auto
  have "(of_int (2 ^ nat (bitlen a - 1)) :: rat) \<le> of_int a"
    using lo by (simp only: of_int_le_iff)
  then show "pow2 (bitlen a - 1) \<le> of_int a"
    using b1 by (simp add: pow2_nat)
  have "(of_int a :: rat) < of_int (2 ^ nat (bitlen a))"
    using hi by (simp only: of_int_less_iff)
  then show "of_int a < pow2 (bitlen a)"
    using b1 by (simp add: pow2_nat)
qed

lemma floor_log2_bounds:
  assumes "q \<noteq> 0"
  shows "pow2 (floor_log2 q) \<le> \<bar>q\<bar>" and "\<bar>q\<bar> < pow2 (floor_log2 q + 1)"
proof -
  obtain a b where ab: "quotient_of \<bar>q\<bar> = (a, b)" by (cases "quotient_of \<bar>q\<bar>")
  then have b: "0 < b" by (rule quotient_of_denom_pos)
  have q: "\<bar>q\<bar> = of_int a / of_int b" using ab by (rule quotient_of_div)
  have "0 < \<bar>q\<bar>" using assms by simp
  then have a: "0 < a" using q b by (simp add: zero_less_divide_iff)
  define d where "d = bitlen a - bitlen b"
  have fl: "floor_log2 q = (if pow2 d \<le> \<bar>q\<bar> then d else d - 1)"
    by (simp add: floor_log2_def ab d_def Let_def)
  have bpos: "(0 :: rat) < of_int b" using b by simp
  have lower: "pow2 (d - 1) \<le> \<bar>q\<bar>"
  proof -
    have "pow2 (d - 1) * of_int b \<le> pow2 (d - 1) * pow2 (bitlen b)"
      using of_int_bitlen_bounds(2) [OF b] pow2_pos [of "d - 1"]
      by (intro mult_left_mono) simp_all
    also have "\<dots> = pow2 (bitlen a - 1)"
      by (simp add: d_def pow2_add [symmetric])
    also have "\<dots> \<le> of_int a" using of_int_bitlen_bounds(1) [OF a] .
    finally show ?thesis using bpos by (simp add: q pos_le_divide_eq)
  qed
  have upper: "\<bar>q\<bar> < pow2 (d + 1)"
  proof -
    have "of_int a < pow2 (bitlen a)" using of_int_bitlen_bounds(2) [OF a] .
    also have "\<dots> = pow2 (d + 1) * pow2 (bitlen b - 1)"
      by (simp add: d_def pow2_add [symmetric])
    also have "\<dots> \<le> pow2 (d + 1) * of_int b"
      using of_int_bitlen_bounds(1) [OF b] pow2_pos [of "d + 1"]
      by (intro mult_left_mono) simp_all
    finally show ?thesis using bpos by (simp add: q pos_divide_less_eq)
  qed
  show "pow2 (floor_log2 q) \<le> \<bar>q\<bar>"
    using lower by (simp add: fl)
  show "\<bar>q\<bar> < pow2 (floor_log2 q + 1)"
    using upper by (auto simp: fl not_le)
qed



subsection \<open>Rounding to an integer\<close>

lemma round_even_of_int: "round_even (of_int n) = n"
  by (simp add: round_even_def)

lemma round_even_lower: "of_int k \<le> x \<Longrightarrow> k \<le> round_even x"
proof -
  assume "of_int k \<le> x"
  then have "k \<le> \<lfloor>x\<rfloor>" by (simp add: le_floor_iff)
  then show ?thesis by (auto simp: round_even_def)
qed

lemma round_even_upper:
  assumes "x \<le> of_int k"
  shows "round_even x \<le> k"
proof (cases "x = of_int k")
  case True
  then show ?thesis by (simp add: round_even_of_int)
next
  case False
  with assms have "x < of_int k" by simp
  then have "\<lfloor>x\<rfloor> < k" by (simp add: floor_less_iff)
  then show ?thesis by (auto simp: round_even_def)
qed

subsection \<open>Rounding to the grid of representable numbers\<close>

text \<open>
  The quotient of \<open>q\<close> by the spacing at \<open>q\<close> is below \<open>2 ^ 64\<close> in magnitude, and at least
  \<open>2 ^ 63\<close> for a normal \<open>q\<close>. The rounded value therefore has the same spacing, or is the
  next power of two, and rounding it again returns it.
\<close>

lemma ulp_exp_alt: "ulp_exp q + 63 = max (floor_log2 q) (- 16382)"
  by (simp add: ulp_exp_def)

lemma pow2_64: "pow2 64 = 18446744073709551616"
  by (simp add: pow2_def)

lemma pow2_63: "pow2 63 = 9223372036854775808"
  by (simp add: pow2_def)

lemma grid_quotient_small:
  assumes "q \<noteq> 0"
  shows "\<bar>q / pow2 (ulp_exp q)\<bar> < pow2 64"
proof -
  have "\<bar>q\<bar> < pow2 (floor_log2 q + 1)" using floor_log2_bounds(2) [OF assms] .
  also have "\<dots> \<le> pow2 (ulp_exp q + 64)"
    by (intro pow2_mono) (simp add: ulp_exp_def)
  also have "\<dots> = pow2 64 * pow2 (ulp_exp q)"
    by (simp add: pow2_add mult.commute)
  finally show ?thesis
    using pow2_pos [of "ulp_exp q"] by (simp add: abs_divide pos_divide_less_eq)
qed

lemma grid_count_le:
  assumes "q \<noteq> 0"
  shows "\<bar>round_even (q / pow2 (ulp_exp q))\<bar> \<le> 18446744073709551616"
proof -
  let ?x = "q / pow2 (ulp_exp q)"
  have a: "\<bar>?x\<bar> < 18446744073709551616"
    using grid_quotient_small [OF assms] unfolding pow2_64 .
  have "(of_int 18446744073709551616 :: rat) = 18446744073709551616"
    and "(of_int (- 18446744073709551616) :: rat) = - 18446744073709551616"
    by simp_all
  with a have up: "?x \<le> of_int 18446744073709551616"
    and lo: "of_int (- 18446744073709551616) \<le> ?x"
    by linarith+
  have "round_even ?x \<le> 18446744073709551616" using up by (rule round_even_upper)
  moreover have "- 18446744073709551616 \<le> round_even ?x" using lo by (rule round_even_lower)
  ultimately show ?thesis by simp
qed

lemma grid_count_ge:
  assumes "q \<noteq> 0" and "- 16382 \<le> floor_log2 q"
  shows "9223372036854775808 \<le> \<bar>round_even (q / pow2 (ulp_exp q))\<bar>"
proof -
  let ?x = "q / pow2 (ulp_exp q)"
  have e: "floor_log2 q = ulp_exp q + 63" using assms(2) by (simp add: ulp_exp_def)
  have "pow2 63 * pow2 (ulp_exp q) = pow2 (floor_log2 q)"
    by (simp add: e pow2_add mult.commute)
  also have "\<dots> \<le> \<bar>q\<bar>" using floor_log2_bounds(1) [OF assms(1)] .
  finally have ge: "9223372036854775808 \<le> \<bar>?x\<bar>"
    using pow2_pos [of "ulp_exp q"] by (simp add: abs_divide pos_le_divide_eq pow2_63)
  show ?thesis
  proof (cases "0 \<le> ?x")
    case True
    with ge have "of_int 9223372036854775808 \<le> ?x" by simp
    then have "9223372036854775808 \<le> round_even ?x" by (rule round_even_lower)
    then show ?thesis by simp
  next
    case False
    with ge have "?x \<le> of_int (- 9223372036854775808)" by simp
    then have "round_even ?x \<le> - 9223372036854775808" by (rule round_even_upper)
    then show ?thesis by simp
  qed
qed

lemma round_grid_zero: "round_grid 0 = 0"
  by (simp add: round_grid_def round_even_def)

lemma round_grid_idem:
  assumes "q \<noteq> 0"
  shows "round_grid (round_grid q) = round_grid q"
proof -
  define E where "E = ulp_exp q + 63"
  define u where "u = pow2 (ulp_exp q)"
  define n where "n = round_even (q / u)"
  define r where "r = round_grid q"
  have r: "r = of_int n * u" by (simp add: r_def round_grid_def n_def u_def)
  have u: "0 < u" by (simp add: u_def pow2_pos)
  have E: "E = max (floor_log2 q) (- 16382)" by (simp add: E_def ulp_exp_def)
  have nle: "\<bar>n\<bar> \<le> 18446744073709551616"
    using grid_count_le [OF assms] by (simp add: n_def u_def)
  have absr: "\<bar>r\<bar> = of_int \<bar>n\<bar> * u" using u by (simp add: r abs_mult)
  have up: "pow2 (E + 1) = 18446744073709551616 * u"
    by (simp add: E_def u_def pow2_add pow2_64 [symmetric] mult.commute)
  have lo: "pow2 E = 9223372036854775808 * u"
    by (simp add: E_def u_def pow2_add pow2_63 [symmetric] mult.commute)
  show ?thesis
  proof (cases "n = 0")
    case True
    then show ?thesis by (simp add: r_def [symmetric] r round_grid_zero)
  next
    case False
    then have r0: "r \<noteq> 0" using u by (simp add: r)
    define E' where "E' = ulp_exp r + 63"
    have E': "E' = max (floor_log2 r) (- 16382)" by (simp add: E'_def ulp_exp_def)
    have rle: "\<bar>r\<bar> \<le> pow2 (E + 1)"
    proof -
      have "(of_int \<bar>n\<bar> :: rat) \<le> of_int 18446744073709551616"
        using nle by (simp only: of_int_le_iff)
      then show ?thesis using u by (simp add: absr up)
    qed
    have "pow2 (floor_log2 r) \<le> pow2 (E + 1)"
      using floor_log2_bounds(1) [OF r0] rle by simp
    then have A: "floor_log2 r \<le> E + 1" by (rule pow2_le_cancel)
    have B: "E \<le> floor_log2 r" if "- 16382 \<le> floor_log2 q"
    proof -
      have "9223372036854775808 \<le> \<bar>n\<bar>"
        using grid_count_ge [OF assms that] by (simp add: n_def u_def)
      then have "(of_int 9223372036854775808 :: rat) \<le> of_int \<bar>n\<bar>"
        by (simp only: of_int_le_iff)
      then have "pow2 E \<le> \<bar>r\<bar>" using u by (simp add: absr lo)
      then have "pow2 E < pow2 (floor_log2 r + 1)"
        using floor_log2_bounds(2) [OF r0] by simp
      then have "E < floor_log2 r + 1" by (rule pow2_less_cancel)
      then show ?thesis by simp
    qed
    have lowE: "E \<le> E'"
    proof (cases "- 16382 \<le> floor_log2 q")
      case True
      from B [OF True] show ?thesis unfolding E' by linarith
    next
      case False
      then have "E = - 16382" by (simp add: E)
      then show ?thesis by (simp add: E')
    qed
    have uppE: "E' \<le> E + 1" using A by (auto simp: E E')
    show ?thesis
    proof (cases "E' = E")
      case True
      then have "ulp_exp r = ulp_exp q" by (simp add: E'_def E_def)
      then have "round_grid r = of_int (round_even (r / u)) * u"
        by (simp add: round_grid_def u_def)
      also have "r / u = of_int n" using u by (simp add: r)
      finally show ?thesis by (simp add: round_even_of_int r_def [symmetric] r)
    next
      case False
      with lowE uppE have E1: "E' = E + 1" by simp
      then have "floor_log2 r = E + 1" using E E' by auto
      then have "pow2 (E + 1) \<le> \<bar>r\<bar>" using floor_log2_bounds(1) [OF r0] by simp
      with rle have "\<bar>r\<bar> = pow2 (E + 1)" by simp
      then have "(of_int \<bar>n\<bar> :: rat) = of_int 18446744073709551616"
        using u by (simp add: absr up)
      then have absn: "\<bar>n\<bar> = 18446744073709551616" by (simp only: of_int_eq_iff)
      then have "n = 18446744073709551616 \<or> n = - 18446744073709551616" by linarith
      then have evn: "n = 2 * (n div 2)" by auto
      have u': "pow2 (ulp_exp r) = 2 * u"
      proof -
        have "ulp_exp r = ulp_exp q + 1" using E1 by (simp add: E'_def E_def)
        moreover have "pow2 1 = 2" by (simp add: pow2_def)
        ultimately show ?thesis by (simp add: u_def pow2_add)
      qed
      have "r / (2 * u) = of_int (n div 2)"
      proof -
        have "r = of_int (2 * (n div 2)) * u" using evn r by simp
        then show ?thesis using u by simp
      qed
      then have "round_grid r = of_int (n div 2) * (2 * u)"
        by (simp add: round_grid_def u' round_even_of_int)
      also have "\<dots> = of_int (2 * (n div 2)) * u" by simp
      also have "\<dots> = r" using evn r by simp
      finally show ?thesis by (simp add: r_def)
    qed
  qed
qed

lemma round_ld_idem:
  assumes "round_ld q = Finite r"
  shows "round_ld r = Finite r"
proof (cases "q = 0")
  case True
  with assms show ?thesis by (simp add: round_ld_def)
next
  case False
  with assms have r: "r = round_grid q" and fin: "\<not> 16384 \<le> floor_log2 (round_grid q)"
    by (auto simp: round_ld_def split: if_splits)
  have "round_grid r = r" using round_grid_idem [OF False] by (simp add: r)
  with fin r show ?thesis by (simp add: round_ld_def)
qed

subsection \<open>A quotient divided by one\<close>

text \<open>
  The law of arithmetic that the comparison of \<^verbatim>\<open>inverse\<close> with \<^verbatim>\<open>determinant\<close> needs holds in
  \<^verbatim>\<open>long double\<close>: a quotient is a rounded number, an infinity or a NaN, and dividing it by
  1 returns it.
\<close>

lemma round_ld_zero: "round_ld 0 = Finite 0"
  by (simp add: round_ld_def)

lemma ld_div_rounded:
  assumes "ld_div x p = Finite r"
  shows "round_ld r = Finite r"
proof (cases x)
  case (Finite a)
  show ?thesis
  proof (cases p)
    case (Finite b)
    with \<open>x = Finite a\<close> assms have "round_ld (a / b) = Finite r"
      by (simp add: inf_sign_def split: if_splits)
    then show ?thesis by (rule round_ld_idem)
  next
    case PosInf
    with \<open>x = Finite a\<close> assms show ?thesis by (auto simp: round_ld_zero)
  next
    case NegInf
    with \<open>x = Finite a\<close> assms show ?thesis by (auto simp: round_ld_zero)
  next
    case NaN
    with \<open>x = Finite a\<close> assms show ?thesis by simp
  qed
next
  case PosInf
  with assms show ?thesis by (cases p) (simp_all add: inf_sign_def split: if_splits)
next
  case NegInf
  with assms show ?thesis by (cases p) (simp_all add: inf_sign_def split: if_splits)
next
  case NaN
  with assms show ?thesis by simp
qed

lemma ld_div_by_one:
  assumes "\<And>r. y = Finite r \<Longrightarrow> round_ld r = Finite r"
  shows "ld_div y (Finite 1) = y"
  using assms by (cases y) (simp_all add: inf_sign_def)

lemma long_double_quot_one: "(x div p) div 1 = x div (p :: long_double)"
  unfolding divide_long_double_def one_long_double_def
  by (rule ld_div_by_one) (rule ld_div_rounded)

subsection \<open>Rounding a power of two\<close>






subsection \<open>The operations on the entries of the example\<close>
















section \<open>Claims about inverse and determinant\<close>



subsection \<open>The last column in \<^verbatim>\<open>long double\<close>\<close>














text \<open>
  In \<^verbatim>\<open>long double\<close> nothing else can happen: a quotient divided by 1 is unchanged, a
  product with 0 is 0 or NaN, so for every square matrix with a missing pivot \<^verbatim>\<open>inverse\<close>
  throws and \<^verbatim>\<open>determinant\<close> returns 0 or NaN.
\<close>

lemma long_double_times_zero: "(P :: long_double) * 0 = 0 \<or> P * 0 = NaN"
  by (cases P) (simp_all add: times_long_double_def zero_long_double_def round_ld_zero)

lemma long_double_negation: "- (0 :: long_double) = 0" "- NaN = NaN"
  by (simp_all add: uminus_long_double_def zero_long_double_def)

lemma long_double_missing_pivot:
  fixes m :: "long_double matrix"
  assumes sq: "rect n n m" and size: "n < 2 ^ 64" and missing: "missing_pivot m"
  shows "inverse_mat m = Inl DegenerateMatrix
       \<and> (determinant m = Inr 0 \<or> determinant m = Inr NaN)"
proof -
  from missing obtain i where mp: "missing_pivot_at m i"
    unfolding missing_pivot_def by blast
  note outcome = missing_pivot_outcome [OF sq size long_double_quot_one mp]
  have "determinant m = Inr 0 \<or> determinant m = Inr NaN"
  proof (cases "Suc i < n")
    case True
    then show ?thesis using outcome(2) by simp
  next
    case False
    with outcome(4) have "Suc i = n" by simp
    from outcome(3) [OF this] obtain P
      where "determinant m = Inr (P * 0) \<or> determinant m = Inr (- (P * 0))" by blast
    with long_double_times_zero [of P] show ?thesis
      by (auto simp: long_double_negation)
  qed
  with outcome(1) show ?thesis by simp
qed

text \<open>
  The integers are an instance of the theorem as well. The matrix with rows \<open>[2,1]\<close>,
  \<open>[2,0]\<close> has determinant \<open>-2\<close>, but with the integer quotient \<open>1 / 2 = 0\<close> the working copy
  of \<^verbatim>\<open>inverse\<close> is \<open>[1,0]\<close>, \<open>[0,0]\<close> after column 0: \<^verbatim>\<open>inverse\<close> throws, and \<^verbatim>\<open>determinant\<close>
  returns \<open>2 * 0\<close>. (All operands are non-negative, where the quotient of \<open>int\<close> in HOL is
  the quotient of C++.)
\<close>

lemma integer_example_inverse: "inverse_mat [[2, 1], [2, 0 :: int]] = Inl DegenerateMatrix"
  by code_simp

lemma integer_example_det_loop: "det_loop 1 2 2 0 [[2, 1], [2, 0 :: int]] False = 0"
  by code_simp

lemma integer_example_determinant: "determinant [[2, 1], [2, 0 :: int]] = Inr 0"
proof -
  have "size_sub 2 1 = 2 - 1" by (rule size_sub_one) simp_all
  then have sub: "size_sub 2 (Suc 0) = Suc 0" by simp
  have r: "rect 2 2 [[2, 1], [2, 0 :: int]]"
    by (simp add: rect_def less_Suc_eq numeral_2_eq_2)
  show ?thesis
    using integer_example_det_loop
    by (simp add: determinant_def rows_rect [OF r] columns_rect [OF r] matrix_copy_rect [OF r] sub)
qed

text \<open>
  A matrix of rank one need not miss a pivot in floating point. For the rows \<open>[7,15]\<close>,
  \<open>[7,15]\<close> in \<^verbatim>\<open>long double\<close>, \<open>15 / 7\<close> is rounded, \<open>15 - (15 / 7) * 7\<close> is \<open>- 2 ^ -60\<close> and
  serves as the pivot of column 1: \<^verbatim>\<open>inverse\<close> returns a matrix and \<^verbatim>\<open>determinant\<close> returns
  \<open>- 7 / 2 ^ 60\<close>. Over the rationals the same matrix has no pivot in column 1.
\<close>

lemma rank_one_det_loop:
  "det_loop 1 2 2 0 [[Finite 7, Finite 15], [Finite 7, Finite 15]] False
     = Finite (- (7 / 1152921504606846976))"
  by code_simp

lemma rank_one_inverse:
  "inverse_mat [[Finite 7, Finite 15], [Finite 7, Finite 15]]
     = Inr [[Finite (- 2470546081300386377), Finite (9882184325201545509 / 4)],
            [Finite 1152921504606846976, Finite (- 1152921504606846976)]]"
  by code_simp

lemma rank_one_exact:
  "inverse_mat [[7, 15], [7, 15 :: rat]] = Inl DegenerateMatrix"
  by code_simp

text \<open>
  Claim C5 says that when the pivot row \<open>j\<close> differs from \<open>i\<close>, rows \<open>i\<close> and \<open>j\<close> are swapped
  in \<^verbatim>\<open>tmp\<close> for the columns from \<open>i\<close> on and in \<^verbatim>\<open>ret\<close> for all columns. The source swaps
  both matrices in one loop that starts at \<^verbatim>\<open>k = i\<close>, so the columns of \<^verbatim>\<open>ret\<close> before \<open>i\<close>
  stay where they are.
\<close>

lemma elem_put_other_column: "c' \<noteq> c \<Longrightarrow> elem (put m r c v) r' c' = elem m r' c'"
  by (cases "r < length m"; cases "r' = r") (simp_all add: elem_def put_def list_update_beyond)

lemma elem_swap_entries_other_column:
  "c \<noteq> k \<Longrightarrow> elem (swap_entries m i j k) r c = elem m r c"
  by (simp add: swap_entries_def elem_put_other_column)

lemma inv_swap_step:
  "k < cols \<Longrightarrow> inv_swap cols i j k (tmp, ret) =
     inv_swap cols i j (Suc k) (swap_entries tmp i j k, swap_entries ret i j k)"
  by (subst inv_swap.simps) simp

lemma inv_swap_done: "\<not> k < cols \<Longrightarrow> inv_swap cols i j k (tmp, ret) = (tmp, ret)"
  by (subst inv_swap.simps) simp

lemma inv_swap_leading_columns:
  "c < k \<Longrightarrow> elem (snd (inv_swap cols i j k (tmp, ret))) r c = elem ret r c"
proof (induction "cols - k" arbitrary: k tmp ret)
  case 0
  then show ?case by (simp add: inv_swap_done)
next
  case (Suc d)
  then have lt: "k < cols" and d: "d = cols - Suc k" by auto
  from lt Suc.prems show ?case
    by (simp add: inv_swap_step Suc.hyps(1) [OF d] elem_swap_entries_other_column)
qed

lemma Suc3_eq: "Suc (Suc (Suc 0)) = 3"
  by simp

lemma inverse_body_example:
  "inverse_body 3 3 0 ([[1, 0, 0], [1, 0, 1], [0, 1, 0 :: rat]], identity 3)
     = Inr ([[1, 0, 0], [0, 0, 1], [0, 1, 0]], [[1, 0, 0], [- 1, 1, 0], [0, 0, 1]])"
  by code_simp

lemma pivot_search_example: "pivot_search 3 [[1, 0, 0], [0, 0, 1], [0, 1, 0 :: rat]] 1 1 = 2"
  by code_simp

lemma inv_swap_example:
  "inv_swap 3 1 2 1 ([[1, 0, 0], [0, 0, 1], [0, 1, 0 :: rat]], [[1, 0, 0], [- 1, 1, 0], [0, 0, 1]])
     = ([[1, 0, 0], [0, 1, 0], [0, 0, 1]], [[1, 0, 0], [- 1, 0, 1], [0, 1, 0]])"
  by code_simp

text \<open>
  Claim C5 evaluated. \<^verbatim>\<open>inverse\<close> on the matrix with rows \<open>[1,0,0]\<close>, \<open>[1,0,1]\<close>, \<open>[0,1,0]\<close>:
  after the iteration for column 0 the pair is \<^verbatim>\<open>tmp\<close> = \<open>[1,0,0]\<close>, \<open>[0,0,1]\<close>, \<open>[0,1,0]\<close> and
  \<^verbatim>\<open>ret\<close> = \<open>[1,0,0]\<close>, \<open>[-1,1,0]\<close>, \<open>[0,0,1]\<close>. In column 1 the pivot search selects row 2.
  The swap loop then returns \<^verbatim>\<open>ret\<close> = \<open>[1,0,0]\<close>, \<open>[-1,0,1]\<close>, \<open>[0,1,0]\<close>: columns 1 and 2 of
  rows 1 and 2 are exchanged, column 0 (entries \<open>-1\<close> and \<open>0\<close>) is not.
\<close>

theorem inverse_swap_skips_column_zero:
  "inverse_body 3 3 0 ([[1, 0, 0], [1, 0, 1], [0, 1, 0 :: rat]], identity 3)
     = Inr ([[1, 0, 0], [0, 0, 1], [0, 1, 0]], [[1, 0, 0], [- 1, 1, 0], [0, 0, 1]])
   \<and> pivot_search 3 [[1, 0, 0], [0, 0, 1], [0, 1, 0 :: rat]] 1 1 = 2
   \<and> inv_swap 3 1 2 1 ([[1, 0, 0], [0, 0, 1], [0, 1, 0 :: rat]], [[1, 0, 0], [- 1, 1, 0], [0, 0, 1]])
     = ([[1, 0, 0], [0, 1, 0], [0, 0, 1]], [[1, 0, 0], [- 1, 0, 1], [0, 1, 0]])"
  by (simp only: inverse_body_example pivot_search_example inv_swap_example simp_thms)

text \<open>
  Claim C4 says that for every square non-singular matrix the result of \<^verbatim>\<open>inverse\<close>,
  multiplied with the matrix from either side, is the identity.
\<close>

lemma det_loop_example:
  "det_loop 2 3 3 0 [[1, 0, 0], [1, 0, 1], [0, 1, 0 :: rat]] False = - 1"
  by code_simp

lemma matrix_copy_example:
  "matrix_copy [[1, 0, 0], [1, 0, 1], [0, 1, 0 :: rat]] = [[1, 0, 0], [1, 0, 1], [0, 1, 0]]"
  by code_simp

lemma determinant_example: "determinant [[1, 0, 0], [1, 0, 1], [0, 1, 0 :: rat]] = Inr (- 1)"
  by (simp add: determinant_def det_loop_example matrix_copy_example rows_def columns_def
      size_sub_def Suc3_eq)

lemma inverse_example:
  "inverse_mat [[1, 0, 0], [1, 0, 1], [0, 1, 0 :: rat]] = Inr [[1, 0, 0], [- 1, 0, 1], [0, 1, 0]]"
  by code_simp

lemma product_left_example:
  "mult [[1, 0, 0], [- 1, 0, 1], [0, 1, 0]] [[1, 0, 0], [1, 0, 1], [0, 1, 0 :: rat]]
     = Inr [[1, 0, 0], [- 1, 1, 0], [1, 0, 1]]"
  by code_simp

lemma product_right_example:
  "mult [[1, 0, 0], [1, 0, 1], [0, 1, 0 :: rat]] [[1, 0, 0], [- 1, 0, 1], [0, 1, 0]]
     = Inr [[1, 0, 0], [1, 1, 0], [- 1, 0, 1]]"
  by code_simp

lemma identity_three: "identity 3 = [[1, 0, 0], [0, 1, 0], [0, 0, 1 :: rat]]"
  by code_simp

text \<open>
  Claim C4 evaluated on the same matrix, whose determinant is \<open>-1\<close>: \<^verbatim>\<open>inverse\<close> returns the
  matrix with rows \<open>[1,0,0]\<close>, \<open>[-1,0,1]\<close>, \<open>[0,1,0]\<close>, and neither product with the argument
  is the identity.
\<close>

theorem inverse_times_matrix_not_identity:
  "determinant [[1, 0, 0], [1, 0, 1], [0, 1, 0 :: rat]] = Inr (- 1)
   \<and> inverse_mat [[1, 0, 0], [1, 0, 1], [0, 1, 0 :: rat]] = Inr [[1, 0, 0], [- 1, 0, 1], [0, 1, 0]]
   \<and> mult [[1, 0, 0], [- 1, 0, 1], [0, 1, 0]] [[1, 0, 0], [1, 0, 1], [0, 1, 0 :: rat]]
       = Inr [[1, 0, 0], [- 1, 1, 0], [1, 0, 1]]
   \<and> mult [[1, 0, 0], [1, 0, 1], [0, 1, 0 :: rat]] [[1, 0, 0], [- 1, 0, 1], [0, 1, 0]]
       = Inr [[1, 0, 0], [1, 1, 0], [- 1, 0, 1]]
   \<and> identity 3 = [[1, 0, 0], [0, 1, 0], [0, 0, 1 :: rat]]"
  by (simp only: determinant_example inverse_example product_left_example product_right_example
      identity_three simp_thms)

section \<open>Claims about sum and difference\<close>

text \<open>
  Claim C7 says that \<^verbatim>\<open>add\<close> and \<^verbatim>\<open>subtract\<close> return the elementwise sum and difference of
  two matrices of equal dimensions and fail on a dimension mismatch. In the source the
  result matrix is never given its dimensions: with operands that have an entry, the first
  assignment is outside the (empty) result. Only the empty matrices are added
  successfully, and the assertion does fail on a mismatch.
\<close>

lemma add_nonempty_out_of_range:
  assumes "0 < rows a" "0 < columns a" "rows a = rows m" "columns a = columns m"
  shows "add a m = Inl OutOfRange"
  using assms
  by (simp add: add_def add_rows.simps [of a m 0] add_cols.simps [of a m 0 0] put_checked_def)

lemma negate_nonempty_out_of_range:
  assumes "0 < rows a" "0 < columns a"
  shows "negate a = Inl OutOfRange"
  using assms
  by (simp add: negate_def negate_rows.simps [of a 0] negate_cols.simps [of a 0 0] put_checked_def)

lemma add_empty: "add [] [] = Inr []"
  by (simp add: add_def rows_def columns_def add_rows.simps [of "[]" "[]" 0])

lemma add_dimension_mismatch:
  "rows a \<noteq> rows m \<or> columns a \<noteq> columns m \<Longrightarrow> add a m = Inl AssertionFailure"
  by (auto simp: add_def)

text \<open>
  Claim C7 evaluated on the 1-by-1 matrices \<open>[[1]]\<close> and \<open>[[2]]\<close>: neither the sum
  \<open>[[3]]\<close> nor the difference \<open>[[-1]]\<close> is returned.
\<close>

theorem add_subtract_one_by_one:
  "add [[1]] [[2 :: int]] = Inl OutOfRange \<and> subtract [[1]] [[2 :: int]] = Inl OutOfRange"
  by code_simp

section \<open>Claims about gauss\<close>

subsection \<open>The accumulator keeps its dimensions\<close>

lemma rect_snd_inv_swap: "rect n c (snd (inv_swap cols i j k (tmp, ret))) = rect n c ret"
proof (induction "cols - k" arbitrary: k tmp ret)
  case 0
  then show ?case by (simp add: inv_swap_done)
next
  case (Suc d)
  then have lt: "k < cols" and d: "d = cols - Suc k" by auto
  from lt show ?case by (simp add: inv_swap_step Suc.hyps(1) [OF d] rect_swap_entries)
qed

lemma rect_snd_inv_normalize:
  "rect n c (snd (inv_normalize cols i j (tmp, ret))) = rect n c ret"
proof (induction "cols - j" arbitrary: j tmp ret)
  case 0
  then show ?case by (simp add: inv_normalize_done)
next
  case (Suc d)
  then have lt: "j < cols" and d: "d = cols - Suc j" by auto
  note IH = Suc.hyps(1) [OF d]
  show ?case
  proof (cases "j = i")
    case True
    with lt show ?thesis by (simp add: inv_normalize_skip IH [unfolded True])
  next
    case False
    with lt show ?thesis by (simp add: inv_normalize_step IH rect_put)
  qed
qed

lemma rect_snd_inv_elim_cols:
  "rect n c (snd (inv_elim_cols cols i j entry k (tmp, ret))) = rect n c ret"
proof (induction "cols - k" arbitrary: k tmp ret)
  case 0
  then show ?case by (simp add: inv_elim_cols_done)
next
  case (Suc d)
  then have lt: "k < cols" and d: "d = cols - Suc k" by auto
  from lt show ?case by (simp add: inv_elim_cols_step Suc.hyps(1) [OF d] rect_put)
qed

lemma rect_snd_inv_elim_rows:
  "rect n c (snd (inv_elim_rows n' cols i j (tmp, ret))) = rect n c ret"
proof (induction "n' - j" arbitrary: j tmp ret)
  case 0
  then show ?case by (simp add: inv_elim_rows_done)
next
  case (Suc d)
  then have lt: "j < n'" and d: "d = n' - Suc j" by auto
  note IH = Suc.hyps(1) [OF d]
  show ?case
  proof (cases "j = i")
    case True
    with lt show ?thesis by (simp add: inv_elim_rows_skip IH [unfolded True])
  next
    case False
    obtain t1 r1 where e: "inv_elim_cols cols i j (elem tmp j i) 0 (tmp, ret) = (t1, r1)"
      by (cases "inv_elim_cols cols i j (elem tmp j i) 0 (tmp, ret)")
    have "rect n c r1 = rect n c ret"
      using rect_snd_inv_elim_cols [of n c cols i j "elem tmp j i" 0 tmp ret] e by simp
    with lt False show ?thesis by (simp add: inv_elim_rows_step e IH)
  qed
qed

lemma rect_snd_inverse_body:
  assumes "inverse_body n' cols i s = Inr s1"
  shows "rect n c (snd s1) = rect n c (snd s)"
proof -
  define j where "j = pivot_search n' (fst s) i i"
  define s2 where "s2 = (if i \<noteq> j then inv_swap cols i j i s else s)"
  define s3 where "s3 = inv_normalize cols i 0 s2"
  define s4 where "s4 = inv_scale_pivot i s3"
  have s1: "s1 = inv_elim_rows n' cols i 0 s4"
    using assms by (simp add: inverse_body_def Let_def j_def s2_def s3_def s4_def split: if_splits)
  have "rect n c (snd s2) = rect n c (snd s)"
    using rect_snd_inv_swap [of n c cols i j i "fst s" "snd s"] by (simp add: s2_def)
  moreover have "rect n c (snd s3) = rect n c (snd s2)"
    using rect_snd_inv_normalize [of n c cols i 0 "fst s2" "snd s2"] by (simp add: s3_def)
  moreover have "rect n c (snd s4) = rect n c (snd s3)"
    by (cases s3) (simp add: s4_def inv_scale_pivot_def rect_put)
  moreover have "rect n c (snd s1) = rect n c (snd s4)"
    using rect_snd_inv_elim_rows [of n c n' cols i 0 "fst s4" "snd s4"] by (simp add: s1)
  ultimately show ?thesis by simp
qed

lemma rect_inverse_loop:
  "inverse_loop n' cols i s = Inr r \<Longrightarrow> rect n c r = rect n c (snd s)"
proof (induction "n' - i" arbitrary: i s)
  case 0
  then show ?case by (simp add: inverse_loop_done)
next
  case (Suc d)
  then have lt: "i < n'" and d: "d = n' - Suc i" by auto
  from Suc.prems lt obtain s1 where b: "inverse_body n' cols i s = Inr s1"
    and l: "inverse_loop n' cols (Suc i) s1 = Inr r"
    by (auto simp: inverse_loop_step split: sum.splits)
  from Suc.hyps(1) [OF d l] rect_snd_inverse_body [OF b] show ?case by simp
qed

lemma rect_identity_loop: "rect n c (identity_loop N i ret) = rect n c ret"
proof (induction "N - i" arbitrary: i ret)
  case 0
  then show ?case by (simp add: identity_loop_done)
next
  case (Suc d)
  then have lt: "i < N" and d: "d = N - Suc i" by auto
  from lt show ?case by (simp add: identity_loop_step Suc.hyps(1) [OF d] rect_put)
qed

lemma rect_matrix_fill: "rect n c (matrix_fill n c t)"
  by (simp add: rect_def matrix_fill_def)

lemma rect_identity: "rect n n (identity n)"
  by (simp add: identity_def rect_identity_loop rect_matrix_fill)

lemma inverse_mat_dimensions:
  assumes "inverse_mat m = Inr r"
  shows "rect (rows m) (rows m) r"
proof -
  from assms have "inverse_loop (rows m) (columns m) 0 (matrix_copy m, identity (rows m)) = Inr r"
    by (simp add: inverse_mat_def split: if_splits)
  from rect_inverse_loop [OF this, of "rows m" "rows m"] show ?thesis
    by (simp add: rect_identity)
qed

lemma gauss_fill_cols_step:
  "j < length (A ! i) \<Longrightarrow>
   gauss_fill_cols A i j m = gauss_fill_cols A i (Suc j) (put m i j (A ! i ! j))"
  by (subst gauss_fill_cols.simps) simp

lemma gauss_fill_cols_done: "\<not> j < length (A ! i) \<Longrightarrow> gauss_fill_cols A i j m = m"
  by (subst gauss_fill_cols.simps) simp

lemma gauss_fill_rows_step:
  "i < length A \<Longrightarrow> gauss_fill_rows A i m = gauss_fill_rows A (Suc i) (gauss_fill_cols A i 0 m)"
  by (subst gauss_fill_rows.simps) simp

lemma gauss_fill_rows_done: "\<not> i < length A \<Longrightarrow> gauss_fill_rows A i m = m"
  by (subst gauss_fill_rows.simps) simp

lemma gauss_fill_y_step:
  "i < length Y \<Longrightarrow> gauss_fill_y Y i m = gauss_fill_y Y (Suc i) (put m 0 i (Y ! i))"
  by (subst gauss_fill_y.simps) simp

lemma gauss_fill_y_done: "\<not> i < length Y \<Longrightarrow> gauss_fill_y Y i m = m"
  by (subst gauss_fill_y.simps) simp

lemma rect_gauss_fill_cols: "rect n c (gauss_fill_cols A i j m) = rect n c m"
proof (induction "length (A ! i) - j" arbitrary: j m)
  case 0
  then show ?case by (simp add: gauss_fill_cols_done)
next
  case (Suc d)
  then have lt: "j < length (A ! i)" and d: "d = length (A ! i) - Suc j" by auto
  from lt show ?case by (simp add: gauss_fill_cols_step Suc.hyps(1) [OF d] rect_put)
qed

lemma rect_gauss_fill_rows: "rect n c (gauss_fill_rows A i m) = rect n c m"
proof (induction "length A - i" arbitrary: i m)
  case 0
  then show ?case by (simp add: gauss_fill_rows_done)
next
  case (Suc d)
  then have lt: "i < length A" and d: "d = length A - Suc i" by auto
  from lt show ?case
    by (simp add: gauss_fill_rows_step Suc.hyps(1) [OF d] rect_gauss_fill_cols)
qed

lemma rect_gauss_fill_y: "rect n c (gauss_fill_y Y i m) = rect n c m"
proof (induction "length Y - i" arbitrary: i m)
  case 0
  then show ?case by (simp add: gauss_fill_y_done)
next
  case (Suc d)
  then have lt: "i < length Y" and d: "d = length Y - Suc i" by auto
  from lt show ?case by (simp add: gauss_fill_y_step Suc.hyps(1) [OF d] rect_put)
qed

text \<open>With two or more equations, or none, the product at the end fails its assertion.\<close>

lemma gauss_fails_unless_one_equation:
  assumes "length A \<noteq> 1"
  shows "\<exists>e. gauss A Y = Inl e"
proof (cases "gauss A Y")
  case (Inl e)
  then show ?thesis by blast
next
  case (Inr x)
  define n where "n = length A"
  define m where "m = gauss_fill_y Y 0 (gauss_fill_rows A 0 (matrix_new n n))"
  have rm: "rect n n m"
    by (simp add: m_def rect_gauss_fill_y rect_gauss_fill_rows matrix_new_def rect_matrix_fill)
  from Inr obtain r where inv: "inverse_mat m = Inr r"
    and prod: "mult r (matrix_new 1 n) = Inr x"
    by (auto simp: gauss_def m_def n_def split: if_splits sum.splits)
  have "rect n n r"
    using inverse_mat_dimensions [OF inv] rows_rect [OF rm] by simp
  then have "columns r = n" by (rule columns_rect)
  moreover have "rows (matrix_new 1 n :: 'a matrix) = 1"
    by (simp add: matrix_new_def matrix_fill_def rows_def)
  ultimately have "mult r (matrix_new 1 n) = Inl AssertionFailure"
    using assms by (simp add: mult_def n_def)
  with prod show ?thesis by simp
qed

lemma rect_one: "rect (Suc 0) (Suc 0) m \<Longrightarrow> \<exists>v. m = [[v]]"
  by (cases m; cases "hd m"; cases "tl (hd m)") (auto simp: rect_def)

lemma matrix_copy_one: "matrix_copy [[b]] = [[b]]"
  by (simp add: matrix_copy_def rows_def columns_def elem_def)

lemma identity_one: "identity (Suc 0) = [[1]]"
  by (simp add: identity_def matrix_fill_def identity_loop_step identity_loop_done put_def)

lemma inverse_one_by_one:
  "inverse_mat [[b]] = (if b = 0 then Inl DegenerateMatrix else Inr [[1 / b]])"
proof (cases "b = 0")
  case True
  have "pivot_search (Suc 0) [[0 :: 'a]] 0 0 = Suc 0"
    by (simp add: pivot_search_step pivot_search_stop elem_def)
  then have "inverse_body (Suc 0) (Suc 0) 0 ([[0 :: 'a]], [[1]]) = Inl DegenerateMatrix"
    by (simp add: inverse_body_def)
  then show ?thesis
    using True
    by (simp add: inverse_mat_def rows_def columns_def matrix_copy_one identity_one
        inverse_loop_step)
next
  case False
  then have p: "pivot_search (Suc 0) [[b]] 0 0 = 0"
    by (simp add: pivot_search_stop elem_def)
  have "inverse_body (Suc 0) (Suc 0) 0 ([[b]], [[1]]) = Inr ([[1]], [[1 / b]])"
    using p
    by (simp add: inverse_body_def inv_normalize_skip inv_normalize_done inv_scale_pivot_def
        inv_elim_rows_skip inv_elim_rows_done put_def elem_def)
  then show ?thesis
    using False
    by (simp add: inverse_mat_def rows_def columns_def matrix_copy_one identity_one
        inverse_loop_step inverse_loop_done)
qed

lemma mult_j_step:
  "j < columns m \<Longrightarrow>
   mult_j a m i k j ret = mult_j a m i k (Suc j) (put ret i j (elem ret i j + elem a i k * elem m k j))"
  by (subst mult_j.simps) simp

lemma mult_j_done: "\<not> j < columns m \<Longrightarrow> mult_j a m i k j ret = ret"
  by (subst mult_j.simps) simp

lemma mult_k_step:
  "k < columns a \<Longrightarrow> mult_k a m i k ret = mult_k a m i (Suc k) (mult_j a m i k 0 ret)"
  by (subst mult_k.simps) simp

lemma mult_k_done: "\<not> k < columns a \<Longrightarrow> mult_k a m i k ret = ret"
  by (subst mult_k.simps) simp

lemma mult_i_step:
  "i < rows a \<Longrightarrow> mult_i a m i ret = mult_i a m (Suc i) (mult_k a m i 0 ret)"
  by (subst mult_i.simps) simp

lemma mult_i_done: "\<not> i < rows a \<Longrightarrow> mult_i a m i ret = ret"
  by (subst mult_i.simps) simp

lemma mult_one_by_one: "mult [[a]] [[b :: 'a::field]] = Inr [[a * b]]"
  by (simp add: mult_def rows_def columns_def matrix_fill_def mult_i_step mult_i_done
      mult_k_step mult_k_done mult_j_step mult_j_done put_def elem_def)

text \<open>
  With one equation the right-hand side replaces the coefficient, and the reciprocal of
  the right-hand side is multiplied with zero.
\<close>

lemma gauss_one_equation:
  assumes "length A = 1" and "rows_fit 1 A"
  shows "gauss A [b :: 'a::field] = (if b = 0 then Inl DegenerateMatrix else Inr [[0]])"
proof -
  have y: "(matrix_new 1 1 :: 'a matrix) = [[0]]"
    by (simp add: matrix_new_def matrix_fill_def)
  have "rect 1 1 (gauss_fill_rows A 0 (matrix_new 1 1 :: 'a matrix))"
    by (simp add: rect_gauss_fill_rows matrix_new_def rect_matrix_fill)
  then obtain v where m0: "gauss_fill_rows A 0 [[0]] = [[v]]"
    unfolding y using rect_one by force
  have m: "gauss_fill_y [b] 0 [[v]] = [[b]]"
    by (simp add: gauss_fill_y_step gauss_fill_y_done put_def)
  have g: "gauss A [b] =
      (case inverse_mat (gauss_fill_y [b] 0 (gauss_fill_rows A 0 (matrix_new 1 1))) of
         Inl e \<Rightarrow> Inl e
       | Inr r \<Rightarrow> mult r (matrix_new 1 1))"
    using assms by (simp add: gauss_def cong: sum.case_cong)
  show ?thesis
    unfolding g y m0 m inverse_one_by_one by (simp add: mult_one_by_one)
qed

text \<open>
  Whenever \<^verbatim>\<open>gauss\<close> returns, there is one equation with a nonzero right-hand side and
  the returned value is zero: the result never solves the system.
\<close>

lemma gauss_result_is_zero:
  fixes Y :: "'a::field list"
  assumes "gauss A Y = Inr x"
  shows "\<exists>b. Y = [b] \<and> b \<noteq> 0 \<and> x = [[0]]"
proof -
  have one: "length A = 1"
    using gauss_fails_unless_one_equation [of A Y] assms by auto
  from assms have len: "length Y = length A" and fit: "rows_fit (length A) A"
    by (auto simp: gauss_def split: if_splits)
  from one len obtain b where Y: "Y = [b]"
    by (cases Y) auto
  from gauss_one_equation [OF one, of b] fit one assms Y show ?thesis
    by (auto split: if_splits)
qed

text \<open>
  Claim C1 says that \<^verbatim>\<open>gauss(A, Y)\<close> returns the solution \<open>x\<close> of \<open>A x = Y\<close>, in particular
  for \<open>A = [[4,3],[6,3]]\<close> and \<open>Y = [1,1]\<close>. In the source the loop over \<^verbatim>\<open>Y\<close> overwrites
  row 0 of the coefficient matrix and leaves \<^verbatim>\<open>y\<close> zero, and \<^verbatim>\<open>y\<close> has one row and \<open>n\<close>
  columns, so the product \<^verbatim>\<open>m.inverse() * y\<close> passes its assertion only for \<open>n = 1\<close>.
  Evaluated: on the example of the specification the assertion of the product fails; on
  the system \<open>2 x = 4\<close> the call returns \<open>0\<close>.
\<close>

theorem gauss_spec_example:
  "gauss [[4, 3], [6, 3 :: rat]] [1, 1] = Inl AssertionFailure
   \<and> gauss [[2 :: rat]] [4] = Inr [[0]]"
  by code_simp

end
